theory Spec2Isabelle
  imports Main "HOL-Library.Sublist"
begin

section \<open>Strings, decimal indices and paths\<close>

text \<open>
  JavaScript strings are modelled as HOL strings (lists of characters standing for the
  code units). \<open>startsWith\<close> is the list prefix relation \<^const>\<open>prefix\<close>.
\<close>

definition isDigit :: "char \<Rightarrow> bool" where
  "isDigit c \<longleftrightarrow> c \<in> set ''0123456789''"

definition digitChar :: "nat \<Rightarrow> char" where
  "digitChar d = ''0123456789'' ! d"

text \<open>
  The template literal \<^verbatim>\<open>`${i}`\<close> of a loop counter: the canonical decimal numeral.
  (The counter is a natural number here; the source's counter is a double, which prints
  the same way below \<open>10^21\<close>.)
\<close>

fun showNat :: "nat \<Rightarrow> string" where
  "showNat n = (if n < 10 then [digitChar n] else showNat (n div 10) @ [digitChar (n mod 10)])"

declare showNat.simps [simp del]

text \<open>\<^verbatim>\<open>/^\d+$/.test(part)\<close>: a non-empty run of ASCII digits.\<close>

definition matchesDigits :: "string \<Rightarrow> bool" where
  "matchesDigits part \<longleftrightarrow> part \<noteq> [] \<and> list_all isDigit part"

text \<open>\<^verbatim>\<open>path.split('.')\<close>: never the empty list; the empty string splits into one empty part.\<close>

fun splitOn :: "char \<Rightarrow> string \<Rightarrow> string list" where
  "splitOn c [] = [[]]"
| "splitOn c (x # xs) =
     (if x = c then [] # splitOn c xs
      else (case splitOn c xs of [] \<Rightarrow> [[x]] | p # ps \<Rightarrow> (x # p) # ps))"

text \<open>\<^verbatim>\<open>currentPath ? `${currentPath}.${key}` : key\<close> and \<^verbatim>\<open>`${newPath}.${i}`\<close>.\<close>

definition joinPath :: "string \<Rightarrow> string \<Rightarrow> string" where
  "joinPath currentPath key = (if currentPath = [] then key else currentPath @ ''.'' @ key)"

definition arrayPath :: "string \<Rightarrow> nat \<Rightarrow> string" where
  "arrayPath newPath i = newPath @ ''.'' @ showNat i"

section \<open>Schemas\<close>

text \<open>
  A primitive type tag is one of the strings \<^verbatim>\<open>'string'\<close>, \<^verbatim>\<open>'number'\<close>, \<^verbatim>\<open>'date'\<close>,
  \<^verbatim>\<open>'boolean'\<close>, or an enum tag \<^verbatim>\<open><v1,v2,...>\<close>. \<open>PEnum inner\<close> stands for the tag
  \<^verbatim>\<open>'<' + inner + '>'\<close>. A schema value is a tag, a one-element array or an object;
  the fields of an object are listed as \<^verbatim>\<open>Object.entries\<close> yields them (distinct keys).
\<close>

datatype primitive = PString | PNumber | PDate | PBoolean | PEnum string

datatype schema = Prim primitive | Arr schema | Obj "(string \<times> schema) list"

fun tagOf :: "primitive \<Rightarrow> string" where
  "tagOf PString = ''string''"
| "tagOf PNumber = ''number''"
| "tagOf PDate = ''date''"
| "tagOf PBoolean = ''boolean''"
| "tagOf (PEnum inner) = ''<'' @ inner @ ''>''"

text \<open>\<^verbatim>\<open>isPrimitive\<close> on a string value.\<close>

definition isPrimitive :: "string \<Rightarrow> bool" where
  "isPrimitive v \<longleftrightarrow>
     v \<in> set [''string'', ''number'', ''date'', ''boolean''] \<or> (prefix ''<'' v \<and> suffix ''>'' v)"

text \<open>
  \<^verbatim>\<open>Object.entries\<close> of a schema that is not a tag: the fields of an object, and the
  single entry \<^verbatim>\<open>['0', t]\<close> of a one-element array. (It is never applied to a tag:
  \<^verbatim>\<open>isPrimitive\<close> is tested first.)
\<close>

fun entries :: "schema \<Rightarrow> (string \<times> schema) list" where
  "entries (Obj fs) = fs"
| "entries (Arr t) = [(''0'', t)]"
| "entries (Prim p) = []"

section \<open>The path resolver\<close>

text \<open>
  The property names every object literal inherits from \<^verbatim>\<open>Object.prototype\<close>; the
  operator \<^verbatim>\<open>in\<close> finds them as well as the object's own keys. All of them are
  functions, except \<^verbatim>\<open>__proto__\<close>, which reads as the prototype itself (and as
  \<^verbatim>\<open>null\<close> on \<^verbatim>\<open>Object.prototype\<close>).
\<close>

definition objectPrototypeKeys :: "string list" where
  "objectPrototypeKeys =
     [''constructor'', ''__defineGetter__'', ''__defineSetter__'', ''hasOwnProperty'',
      ''__lookupGetter__'', ''__lookupSetter__'', ''isPrototypeOf'', ''propertyIsEnumerable'',
      ''toString'', ''valueOf'', ''__proto__'', ''toLocaleString'']"

text \<open>The values the variable \<^verbatim>\<open>currentSchema\<close> of \<^verbatim>\<open>isValidPath\<close> can hold.\<close>

datatype node = NSchema schema | NFunction | NObjectPrototype | NNull

definition inheritedValue :: "node \<Rightarrow> string \<Rightarrow> node" where
  "inheritedValue obj part =
     (if part = ''__proto__'' then (if obj = NObjectPrototype then NNull else NObjectPrototype)
      else NFunction)"

text \<open>The loop of \<^verbatim>\<open>isValidPath\<close> over the remaining parts.\<close>

fun walk :: "node \<Rightarrow> string list \<Rightarrow> bool" where
  "walk currentSchema [] = True"
| "walk (NSchema (Prim p)) (part # parts) = False"
| "walk (NSchema (Arr t)) (part # parts) =
     (if \<not> matchesDigits part then False else walk (NSchema t) parts)"
| "walk (NSchema (Obj fs)) (part # parts) =
     (case map_of fs part of
        Some t \<Rightarrow> walk (NSchema t) parts
      | None \<Rightarrow>
          if part \<in> set objectPrototypeKeys
          then walk (inheritedValue (NSchema (Obj fs)) part) parts
          else False)"
| "walk NFunction (part # parts) = False"
| "walk NObjectPrototype (part # parts) =
     (if part \<in> set objectPrototypeKeys
      then walk (inheritedValue NObjectPrototype part) parts
      else False)"
| "walk NNull (part # parts) = False"

definition isValidPath :: "string \<Rightarrow> schema \<Rightarrow> bool" where
  "isValidPath path schema = walk (NSchema schema) (splitOn CHR ''.'' path)"

text \<open>
  The resolver as the specification words it: an array node takes a digit segment and
  descends into the element schema, an object node takes one of its keys and descends
  into that key's schema, a primitive leaf takes no further segment.
\<close>

fun resolves :: "schema \<Rightarrow> string list \<Rightarrow> bool" where
  "resolves s [] = True"
| "resolves (Prim p) (seg # segs) = False"
| "resolves (Arr t) (seg # segs) = (matchesDigits seg \<and> resolves t segs)"
| "resolves (Obj fs) (seg # segs) =
     (case map_of fs seg of None \<Rightarrow> False | Some t \<Rightarrow> resolves t segs)"

section \<open>Debounce\<close>

text \<open>
  The timers of the host: \<^verbatim>\<open>setTimeout\<close> registers a callback under a fresh handle,
  \<^verbatim>\<open>clearTimeout\<close> removes it. \<open>app\<close> is the state the callback \<^verbatim>\<open>fn\<close> acts on.
\<close>

datatype delay = DelayFalse | DelayMs nat

record 'a world =
  app :: 'a
  clock :: nat
  nextHandle :: nat
  timers :: "(nat \<times> nat \<times> ('a \<Rightarrow> 'a)) list"

definition setTimeout :: "('a \<Rightarrow> 'a) \<Rightarrow> nat \<Rightarrow> 'a world \<Rightarrow> nat \<times> 'a world" where
  "setTimeout fn ms w =
     (nextHandle w,
      w\<lparr>nextHandle := Suc (nextHandle w), timers := timers w @ [(nextHandle w, clock w + ms, fn)]\<rparr>)"

definition clearTimeout :: "nat option \<Rightarrow> 'a world \<Rightarrow> 'a world" where
  "clearTimeout t w =
     (case t of None \<Rightarrow> w | Some i \<Rightarrow> w\<lparr>timers := filter (\<lambda>(j, due, fn). j \<noteq> i) (timers w)\<rparr>)"

text \<open>
  \<^verbatim>\<open>debounce(fn, delay)\<close> returns a closure over the variable \<^verbatim>\<open>timeout\<close>; the closure
  is a transformer of that variable and the world.
\<close>

definition debounce ::
  "('a \<Rightarrow> 'a) \<Rightarrow> delay \<Rightarrow> nat option \<times> 'a world \<Rightarrow> nat option \<times> 'a world" where
  "debounce fn d =
     (case d of
        DelayFalse \<Rightarrow> (\<lambda>(timeout, w). (timeout, w))
      | DelayMs ms \<Rightarrow>
          (\<lambda>(timeout, w).
             let w1 = clearTimeout timeout w;
                 (t, w2) = setTimeout fn ms w1
             in (Some t, w2)))"

text \<open>The host runs the callbacks that are due once the clock has advanced.\<close>

definition advanceTimers :: "nat \<Rightarrow> 'a world \<Rightarrow> 'a world" where
  "advanceTimers ms w =
     (let now = clock w + ms;
          due = filter (\<lambda>(j, t, fn). t \<le> now) (timers w);
          rest = filter (\<lambda>(j, t, fn). \<not> t \<le> now) (timers w)
      in w\<lparr>app := fold (\<lambda>(j, t, fn). fn) due (app w), clock := now, timers := rest\<rparr>)"

section \<open>Values and the host\<close>

text \<open>
  The values of the language that a leaf can hold, and the trees built from them: parsed
  values and default values. Numbers other than \<^verbatim>\<open>NaN\<close> and valid dates are values of the
  types \<open>'n\<close> and \<open>'d\<close> of the host. A default tree can also yield what an object inherits
  from \<^verbatim>\<open>Object.prototype\<close>: a built-in function (given by its name), or the prototype
  object itself.
\<close>

datatype ('n, 'd) jsprim =
  Undefined | Null | Str string | Num 'n | NaN | Bool bool | DateV 'd | InvalidDate
  | Fn string | ObjectPrototype

datatype ('n, 'd) jsval =
  Leaf "('n, 'd) jsprim" | ArrV "('n, 'd) jsval list" | ObjV "(string \<times> ('n, 'd) jsval) list"

text \<open>
  What the codec takes from the host language, as parameters: the number a string is read
  as (\<open>None\<close> when the result is \<^verbatim>\<open>NaN\<close>), \<^verbatim>\<open>n === 0\<close>, \<^verbatim>\<open>n.toString()\<close>, the date a string
  is read as (\<open>None\<close> when the date is invalid), \<^verbatim>\<open>d.toISOString()\<close>, \<^verbatim>\<open>d.toString()\<close>, the
  entries of \<^verbatim>\<open>new URL(s).searchParams\<close> for a string that starts with a scheme (\<open>None\<close>
  when the constructor throws), and the text \<^verbatim>\<open>String(f)\<close> of the built-in function of
  a given name. Floating-point arithmetic and calendars stay outside the model; the
  values of type \<open>'n\<close> are compared as \<^verbatim>\<open>===\<close> compares numbers.
\<close>

record ('n, 'd) host =
  parseNumber :: "string \<Rightarrow> 'n option"
  numberIsZero :: "'n \<Rightarrow> bool"
  numberToString :: "'n \<Rightarrow> string"
  parseDate :: "string \<Rightarrow> 'd option"
  dateToISOString :: "'d \<Rightarrow> string"
  dateToString :: "'d \<Rightarrow> string"
  urlSearchParams :: "string \<Rightarrow> (string \<times> string) list option"
  functionToString :: "string \<Rightarrow> string"

text \<open>Truthiness (\<^verbatim>\<open>!value\<close> is its negation).\<close>

fun truthyPrim :: "('n, 'd) host \<Rightarrow> ('n, 'd) jsprim \<Rightarrow> bool" where
  "truthyPrim h Undefined = False"
| "truthyPrim h Null = False"
| "truthyPrim h (Str s) = (s \<noteq> [])"
| "truthyPrim h (Num n) = (\<not> numberIsZero h n)"
| "truthyPrim h NaN = False"
| "truthyPrim h (Bool b) = b"
| "truthyPrim h (DateV d) = True"
| "truthyPrim h InvalidDate = True"
| "truthyPrim h (Fn name) = True"
| "truthyPrim h ObjectPrototype = True"

fun truthy :: "('n, 'd) host \<Rightarrow> ('n, 'd) jsval \<Rightarrow> bool" where
  "truthy h (Leaf v) = truthyPrim h v"
| "truthy h (ArrV xs) = True"
| "truthy h (ObjV fs) = True"

text \<open>The result of \<^verbatim>\<open>pathMap.get\<close>: a string or \<^verbatim>\<open>undefined\<close>.\<close>

fun truthyRaw :: "string option \<Rightarrow> bool" where
  "truthyRaw None = False"
| "truthyRaw (Some s) = (s \<noteq> [])"

text \<open>\<^verbatim>\<open>String(value)\<close> and \<^verbatim>\<open>value.toString()\<close> on the value of a leaf.\<close>

fun toStringJS :: "('n, 'd) host \<Rightarrow> ('n, 'd) jsprim \<Rightarrow> string" where
  "toStringJS h Undefined = ''undefined''"
| "toStringJS h Null = ''null''"
| "toStringJS h (Str s) = s"
| "toStringJS h (Num n) = numberToString h n"
| "toStringJS h NaN = ''NaN''"
| "toStringJS h (Bool b) = (if b then ''true'' else ''false'')"
| "toStringJS h (DateV d) = dateToString h d"
| "toStringJS h InvalidDate = ''Invalid Date''"
| "toStringJS h (Fn name) = functionToString h name"
| "toStringJS h ObjectPrototype = ''[object Object]''"

text \<open>
  A property of \<^verbatim>\<open>Object.prototype\<close>, read on an object that inherits it or on the
  prototype itself: \<^verbatim>\<open>constructor\<close> is the function \<^verbatim>\<open>Object\<close>, \<^verbatim>\<open>__proto__\<close> reads as
  the prototype of the object, every other name of \<open>objectPrototypeKeys\<close> is the function
  of that name.
\<close>

definition prototypeMember :: "bool \<Rightarrow> string \<Rightarrow> ('n, 'd) jsval" where
  "prototypeMember onPrototype key =
     (if key \<notin> set objectPrototypeKeys then Leaf Undefined
      else if key = ''__proto__'' then (if onPrototype then Leaf Null else Leaf ObjectPrototype)
      else if key = ''constructor'' then Leaf (Fn ''Object'')
      else Leaf (Fn key))"

text \<open>
  \<^verbatim>\<open>defaultSchema?.[key]\<close>: on an object, the own property of that name, or else the
  member the object inherits from \<^verbatim>\<open>Object.prototype\<close> (under the key \<^verbatim>\<open>toString\<close> the
  default \<^verbatim>\<open>{}\<close> yields a function); on an array, the element whose index prints as the
  key; on \<^verbatim>\<open>undefined\<close> and \<^verbatim>\<open>null\<close>, \<^verbatim>\<open>undefined\<close>. A default tree mirrors the schema (type
  \<^verbatim>\<open>Default<S>\<close>): it has an object where the schema has an object and an array where the
  schema has an array, where the key is an index. The other members of an array, and the
  members of a string, a number, a boolean, a date or a function, which only a default
  against that type or a schema key read from a prototype can reach, stay outside the
  model and read as \<^verbatim>\<open>undefined\<close>.
\<close>

fun getProp :: "('n, 'd) jsval \<Rightarrow> string \<Rightarrow> ('n, 'd) jsval" where
  "getProp (ObjV fs) key = (case map_of fs key of Some v \<Rightarrow> v | None \<Rightarrow> prototypeMember False key)"
| "getProp (ArrV xs) key =
     (case filter (\<lambda>i. showNat i = key) [0..<length xs] of
        i # _ \<Rightarrow> xs ! i
      | [] \<Rightarrow> Leaf Undefined)"
| "getProp (Leaf ObjectPrototype) key = prototypeMember True key"
| "getProp (Leaf v) key = Leaf Undefined"

text \<open>
  \<^verbatim>\<open>defaultValue?.[i]\<close> for the counter \<open>i\<close> of a loop: the element of an array;
  \<^verbatim>\<open>Object.prototype\<close> has no property named by a numeral.
\<close>

fun getIndex :: "('n, 'd) jsval \<Rightarrow> nat \<Rightarrow> ('n, 'd) jsval" where
  "getIndex (ArrV xs) i = (if i < length xs then xs ! i else Leaf Undefined)"
| "getIndex (ObjV fs) i = Leaf Undefined"
| "getIndex (Leaf v) i = Leaf Undefined"

section \<open>The coercion engine\<close>

text \<open>The literals of an enum tag: the text between the brackets, split on commas.\<close>

definition enumLiterals :: "string \<Rightarrow> string list" where
  "enumLiterals inner = splitOn CHR '','' inner"

text \<open>
  Modelled from the spec: \<^verbatim>\<open>validateEnum\<close> of \<^verbatim>\<open>coerce.ts\<close>, which is not among the
  sources. A value passes when it is a string exactly equal to one of the literals of
  the enum tag.
\<close>

fun validateEnum :: "primitive \<Rightarrow> ('n, 'd) jsprim \<Rightarrow> bool" where
  "validateEnum (PEnum inner) (Str s) = (s \<in> set (enumLiterals inner))"
| "validateEnum p v = False"

text \<open>\<^verbatim>\<open>stringifyPrimitive\<close>; \<open>None\<close> is \<^verbatim>\<open>null\<close>.\<close>

fun stringifyPrimitive :: "('n, 'd) host \<Rightarrow> primitive \<Rightarrow> ('n, 'd) jsprim \<Rightarrow> string option" where
  "stringifyPrimitive h PString v = (if \<not> truthyPrim h v then None else Some (toStringJS h v))"
| "stringifyPrimitive h PNumber v =
     (if v = Null then None
      else if truthyPrim h v \<or> (case v of Num n \<Rightarrow> numberIsZero h n | _ \<Rightarrow> False)
           then Some (toStringJS h v)
           else None)"
| "stringifyPrimitive h PDate v =
     (if v = Null then None
      else (case v of DateV d \<Rightarrow> Some (dateToISOString h d) | _ \<Rightarrow> None))"
| "stringifyPrimitive h PBoolean v =
     (if v = Null then None else if truthyPrim h v then Some ''true'' else Some ''false'')"
| "stringifyPrimitive h (PEnum inner) v =
     (if validateEnum (PEnum inner) v then Some (toStringJS h v) else None)"

definition lowerChar :: "char \<Rightarrow> char" where
  "lowerChar c =
     (case map_of (zip ''ABCDEFGHIJKLMNOPQRSTUVWXYZ'' ''abcdefghijklmnopqrstuvwxyz'') c of
        Some l \<Rightarrow> l
      | None \<Rightarrow> c)"

text \<open>
  Modelled from the spec: the parse direction of \<^verbatim>\<open>coercePrimitive\<close> of \<^verbatim>\<open>coerce.ts\<close>,
  which is not among the sources, on a raw string that is present. The rules are those
  of the table of section 4.2; a raw value that fails them resolves to \<^verbatim>\<open>null\<close>.
\<close>

fun coerceRaw :: "('n, 'd) host \<Rightarrow> primitive \<Rightarrow> string \<Rightarrow> ('n, 'd) jsprim" where
  "coerceRaw h PString s = (if s = [] \<or> s = ''null'' then Null else Str s)"
| "coerceRaw h PNumber s =
     (if s = [] \<or> s = ''null'' then Null
      else (case parseNumber h s of None \<Rightarrow> Null | Some n \<Rightarrow> Num n))"
| "coerceRaw h PDate s =
     (if s = [] \<or> s = ''null'' then Null
      else (case parseDate h s of None \<Rightarrow> Null | Some d \<Rightarrow> DateV d))"
| "coerceRaw h PBoolean s =
     (if map lowerChar s \<in> set [''true'', ''1''] then Bool True
      else if map lowerChar s \<in> set [''false'', ''0''] then Bool False
      else Null)"
| "coerceRaw h (PEnum inner) s =
     (if s \<noteq> [] \<and> s \<in> set (enumLiterals inner) then Str s else Null)"

text \<open>
  Modelled from the spec: \<^verbatim>\<open>coercePrimitive(kind, rawValue, defaultValue)\<close>. Only the
  absence of the raw value triggers the default, which is then coerced the same way (by
  the rules for its string form); a raw value that is present never falls back.
\<close>

fun coercePrimitive ::
  "('n, 'd) host \<Rightarrow> primitive \<Rightarrow> string option \<Rightarrow> ('n, 'd) jsval \<Rightarrow> ('n, 'd) jsprim" where
  "coercePrimitive h kind (Some s) dv = coerceRaw h kind s"
| "coercePrimitive h kind None (Leaf Undefined) = Null"
| "coercePrimitive h kind None (Leaf Null) = Null"
| "coercePrimitive h kind None (Leaf v) = coerceRaw h kind (toStringJS h v)"
| "coercePrimitive h kind None (ArrV xs) = Null"
| "coercePrimitive h kind None (ObjV fs) = Null"

section \<open>The flat parameter map\<close>

text \<open>
  A \<^verbatim>\<open>Map\<close> keeps its keys in insertion order; \<^verbatim>\<open>set\<close> on a key that exists replaces
  the value in place. \<^verbatim>\<open>new Map(paths)\<close> sets the entries one after the other.
\<close>

type_synonym pathMap = "(string \<times> string) list"

fun Map_set :: "pathMap \<Rightarrow> string \<Rightarrow> string \<Rightarrow> pathMap" where
  "Map_set [] k v = [(k, v)]"
| "Map_set ((k', v') # m) k v = (if k' = k then (k, v) # m else (k', v') # Map_set m k v)"

definition new_Map :: "(string \<times> string) list \<Rightarrow> pathMap" where
  "new_Map paths = foldl (\<lambda>m (k, v). Map_set m k v) [] paths"

definition Map_get :: "pathMap \<Rightarrow> string \<Rightarrow> string option" where
  "Map_get m k = map_of m k"

definition Map_keys :: "pathMap \<Rightarrow> string list" where
  "Map_keys m = map fst m"

text \<open>\<^verbatim>\<open>Array.from(pathMap.keys()).some((path) => path.startsWith(arrayPath))\<close>.\<close>

definition hasPaths :: "pathMap \<Rightarrow> string \<Rightarrow> bool" where
  "hasPaths m p = list_ex (prefix p) (Map_keys m)"

section \<open>The recursive codec: parsing\<close>

text \<open>
  The exceptions the code can raise: the \<^verbatim>\<open>TypeError\<close> of \<^verbatim>\<open>new URL(data)\<close>, and the
  \<^verbatim>\<open>TypeError\<close> of a call to a value that is not a function.
\<close>

datatype error = TypeError

text \<open>
  \<^verbatim>\<open>isPrimitive(type)\<close> on the value \<^verbatim>\<open>type\<close> of an entry of the schema. On a tag it is
  the test above. On a value that is not a string, \<^verbatim>\<open>includes\<close> fails and the optional
  call \<^verbatim>\<open>value.startsWith?.('<')\<close> reads the property \<^verbatim>\<open>startsWith\<close>: an array has none, and
  an object has none unless it is one of its own keys; the call then yields \<^verbatim>\<open>undefined\<close>
  and the test is false. An own key \<^verbatim>\<open>startsWith\<close> of a nested schema object holds a schema
  (a string, an array or an object), which is not a function: the call throws.
\<close>

definition isPrimitiveType :: "schema \<Rightarrow> error + bool" where
  "isPrimitiveType type =
     (case type of
        Prim p \<Rightarrow> Inr (isPrimitive (tagOf p))
      | Arr t \<Rightarrow> Inr False
      | Obj fs \<Rightarrow> (case map_of fs ''startsWith'' of None \<Rightarrow> Inr False | Some t \<Rightarrow> Inl TypeError))"

text \<open>
  The index loops \<^verbatim>\<open>for (let i = 0; ; i++)\<close> of \<^verbatim>\<open>parseSchemaRecursive\<close> have no bound of
  their own. They end because a loop goes on only while the map has a key that holds the
  numeral of \<open>i\<close>, or the default array has an index \<open>i\<close>: the index stays below
  \<open>loopBound\<close>, which the termination proofs use as their measure.
\<close>

lemma digit_lt_pow: "n < 10 ^ length (showNat n)"
proof (induction n rule: showNat.induct)
  case (1 n)
  show ?case
  proof (cases "n < 10")
    case True
    then show ?thesis by (subst showNat.simps) simp
  next
    case False
    with 1 have "n div 10 < 10 ^ length (showNat (n div 10))" by simp
    then have "n < 10 * 10 ^ length (showNat (n div 10))" by linarith
    with False show ?thesis by (subst showNat.simps) simp
  qed
qed

definition maxKeyLen :: "pathMap \<Rightarrow> nat" where
  "maxKeyLen m = foldr (\<lambda>(k, v) n. max (length k) n) m 0"

lemma maxKeyLen_ge: "k \<in> set (Map_keys m) \<Longrightarrow> length k \<le> maxKeyLen m"
  by (induction m) (force simp: maxKeyLen_def Map_keys_def)+

definition loopBound :: "pathMap \<Rightarrow> ('n, 'd) jsval \<Rightarrow> nat" where
  "loopBound m dv = max (case dv of ArrV xs \<Rightarrow> length xs | _ \<Rightarrow> 0) (10 ^ maxKeyLen m)"

lemma index_lt_pow: "length (showNat i) \<le> n \<Longrightarrow> i < 10 ^ n"
proof -
  assume a: "length (showNat i) \<le> n"
  have "i < 10 ^ length (showNat i)" by (rule digit_lt_pow)
  also have "\<dots> \<le> (10::nat) ^ n" using a by (simp add: power_increasing)
  finally show ?thesis .
qed

lemma truthy_getIndex_bound: "truthy h (getIndex dv i) \<Longrightarrow> i < loopBound m dv"
  by (cases dv) (auto simp: loopBound_def split: if_splits)

lemma truthyRaw_bound: "truthyRaw (Map_get m (arrayPath p i)) \<Longrightarrow> i < loopBound m dv"
proof -
  assume "truthyRaw (Map_get m (arrayPath p i))"
  then obtain s where "map_of m (arrayPath p i) = Some s"
    by (cases "Map_get m (arrayPath p i)") (auto simp: Map_get_def)
  then have "arrayPath p i \<in> set (Map_keys m)"
    by (auto simp: Map_keys_def dest: map_of_SomeD intro: rev_image_eqI)
  then have "length (arrayPath p i) \<le> maxKeyLen m" by (rule maxKeyLen_ge)
  then have "length (showNat i) \<le> maxKeyLen m" by (simp add: arrayPath_def)
  then have "i < 10 ^ maxKeyLen m" by (rule index_lt_pow)
  then show ?thesis by (simp add: loopBound_def)
qed

lemma hasPaths_bound: "hasPaths m (arrayPath p i) \<Longrightarrow> i < loopBound m dv"
proof -
  assume "hasPaths m (arrayPath p i)"
  then obtain k where k: "k \<in> set (Map_keys m)" "prefix (arrayPath p i) k"
    by (auto simp: hasPaths_def list_ex_iff)
  from k(2) have "length (arrayPath p i) \<le> length k" by (rule prefix_length_le)
  with maxKeyLen_ge[OF k(1)] have "length (showNat i) \<le> maxKeyLen m" by (simp add: arrayPath_def)
  then have "i < 10 ^ maxKeyLen m" by (rule index_lt_pow)
  then show ?thesis by (simp add: loopBound_def)
qed

text \<open>
  The loop over an array of primitives, from index \<open>i\<close>:
  \<^verbatim>\<open>const value = pathMap.get(arrayPath); if (!value && !defaultValue?.[i]) break;\<close>
  and then the push of \<^verbatim>\<open>coercePrimitive(primitive, value, defaultValue?.[i])\<close>. The result is
  the list of the values pushed.
\<close>

function parsePrimArray ::
  "('n, 'd) host \<Rightarrow> pathMap \<Rightarrow> primitive \<Rightarrow> string \<Rightarrow> ('n, 'd) jsval \<Rightarrow> nat \<Rightarrow> ('n, 'd) jsval list" where
  "parsePrimArray h m p newPath dv i =
     (if \<not> truthyRaw (Map_get m (arrayPath newPath i)) \<and> \<not> truthy h (getIndex dv i) then []
      else Leaf (coercePrimitive h p (Map_get m (arrayPath newPath i)) (getIndex dv i))
             # parsePrimArray h m p newPath dv (Suc i))"
  by pat_completeness auto
termination
proof (relation "measure (\<lambda>(h, m, p, newPath, dv, i). loopBound m dv - i)")
  show "wf (measure (\<lambda>(h, m, p, newPath, dv, i). loopBound m dv - i))" by simp
next
  fix h :: "('n, 'd) host" and m p newPath and dv :: "('n, 'd) jsval" and i
  assume "\<not> (\<not> truthyRaw (Map_get m (arrayPath newPath i)) \<and> \<not> truthy h (getIndex dv i))"
  then have "i < loopBound m dv"
    using truthyRaw_bound truthy_getIndex_bound by blast
  then show "((h, m, p, newPath, dv, Suc i), (h, m, p, newPath, dv, i))
        \<in> measure (\<lambda>(h, m, p, newPath, dv, i). loopBound m dv - i)"
    by simp
qed

text \<open>The size of a schema that decreases along the recursion of the parser.\<close>

primrec weight :: "schema \<Rightarrow> nat" where
  "weight (Prim p) = 0"
| "weight (Arr t) = weight t + 3"
| "weight (Obj fs) = Suc (sum_list (map (\<lambda>f. Suc (snd f)) (map (map_prod id weight) fs)))"

definition fieldsWeight :: "(string \<times> schema) list \<Rightarrow> nat" where
  "fieldsWeight fs = sum_list (map (\<lambda>f. Suc (weight (snd f))) fs)"

lemma weight_Obj: "weight (Obj fs) = Suc (fieldsWeight fs)"
  by (simp add: fieldsWeight_def comp_def)

text \<open>
  \<^verbatim>\<open>parseSchemaRecursive\<close> runs over \<^verbatim>\<open>Object.entries(currentSchema)\<close> and assigns
  \<^verbatim>\<open>currentResult[key]\<close> for each entry; the model returns the entries of the result object
  in that order. \<open>parseField\<close> is the value that the body of the loop assigns for one
  entry, by the cases that \<^verbatim>\<open>Array.isArray(schemaType)\<close> and \<^verbatim>\<open>isPrimitive(type)\<close> select
  when the test returns: a primitive, an array of primitives, an array whose element is
  not primitive (the element schema is walked through \<^verbatim>\<open>Object.entries\<close>), a nested object.
  \<open>parseObjArray\<close> is the loop over such an array from index \<open>i\<close>:
  \<^verbatim>\<open>if (!defaultValue?.[i] && !hasPaths) break;\<close> and then the parse of a fresh object under
  \<^verbatim>\<open>`${newPath}.${i}`\<close>.
\<close>

function parseSchemaRecursive ::
    "('n, 'd) host \<Rightarrow> pathMap \<Rightarrow> (string \<times> schema) list \<Rightarrow> string \<Rightarrow> ('n, 'd) jsval
       \<Rightarrow> (string \<times> ('n, 'd) jsval) list"
  and parseField ::
    "('n, 'd) host \<Rightarrow> pathMap \<Rightarrow> schema \<Rightarrow> string \<Rightarrow> ('n, 'd) jsval \<Rightarrow> ('n, 'd) jsval"
  and parseObjArray ::
    "('n, 'd) host \<Rightarrow> pathMap \<Rightarrow> (string \<times> schema) list \<Rightarrow> string \<Rightarrow> ('n, 'd) jsval \<Rightarrow> nat
       \<Rightarrow> ('n, 'd) jsval list"
where
  "parseSchemaRecursive h m [] currentPath defaultSchema = []"
| "parseSchemaRecursive h m ((key, schemaType) # rest) currentPath defaultSchema =
     (key, parseField h m schemaType (joinPath currentPath key) (getProp defaultSchema key))
       # parseSchemaRecursive h m rest currentPath defaultSchema"
| "parseField h m (Prim p) newPath dv = Leaf (coercePrimitive h p (Map_get m newPath) dv)"
| "parseField h m (Arr (Prim p)) newPath dv = ArrV (parsePrimArray h m p newPath dv 0)"
| "parseField h m (Arr (Obj fs)) newPath dv = ArrV (parseObjArray h m fs newPath dv 0)"
| "parseField h m (Arr (Arr t)) newPath dv = ArrV (parseObjArray h m (entries (Arr t)) newPath dv 0)"
| "parseField h m (Obj fs) newPath dv = ObjV (parseSchemaRecursive h m fs newPath dv)"
| "parseObjArray h m fs newPath dv i =
     (if \<not> truthy h (getIndex dv i) \<and> \<not> hasPaths m (arrayPath newPath i) then []
      else ObjV (parseSchemaRecursive h m fs (arrayPath newPath i) (getIndex dv i))
             # parseObjArray h m fs newPath dv (Suc i))"
  by pat_completeness auto
termination
  apply (relation "(\<lambda>x. case x of
            Inl (h, m, fs, cp, d) \<Rightarrow> fieldsWeight fs
          | Inr (Inl (h, m, t, np, dv)) \<Rightarrow> weight t
          | Inr (Inr (h, m, fs, np, dv, i)) \<Rightarrow> Suc (fieldsWeight fs))
        <*mlex*> measure (\<lambda>x. case x of
            Inr (Inr (h, m, fs, np, dv, i)) \<Rightarrow> loopBound m dv - i
          | _ \<Rightarrow> 0)")
        apply (simp add: wf_mlex)
       apply (auto simp: mlex_prod_def fieldsWeight_def comp_def)[6]
  apply (rule mlex_leq)
   apply simp
  apply (simp)
  using hasPaths_bound truthy_getIndex_bound apply (metis diff_less_mono2 lessI)
  done


declare parsePrimArray.simps [simp del]
declare parseObjArray.simps [simp del]

text \<open>
  The run of \<^verbatim>\<open>parseSchemaRecursive\<close> can raise an exception at one place, the calls
  \<^verbatim>\<open>isPrimitive(type)\<close> at the head of the loop body. The model keeps the value and the
  exception apart: the functions above give the object that the run builds, by the cases
  that \<^verbatim>\<open>isPrimitive(type)\<close> and \<^verbatim>\<open>Array.isArray(schemaType)\<close> select, and the functions
  below tell whether the run raises the \<^verbatim>\<open>TypeError\<close>: at an entry, when
  \<^verbatim>\<open>isPrimitive(type)\<close> throws, or when a parse nested in the entry does, at an element of
  an array or in a nested object; a loop over an array runs over the same indices as
  above. \<^verbatim>\<open>parseURL\<close> returns the object only when nothing is raised.
\<close>

function raisesSchemaRecursive ::
    "('n, 'd) host \<Rightarrow> pathMap \<Rightarrow> (string \<times> schema) list \<Rightarrow> string \<Rightarrow> ('n, 'd) jsval \<Rightarrow> bool"
  and raisesField ::
    "('n, 'd) host \<Rightarrow> pathMap \<Rightarrow> schema \<Rightarrow> string \<Rightarrow> ('n, 'd) jsval \<Rightarrow> bool"
  and raisesObjArray ::
    "('n, 'd) host \<Rightarrow> pathMap \<Rightarrow> (string \<times> schema) list \<Rightarrow> string \<Rightarrow> ('n, 'd) jsval \<Rightarrow> nat \<Rightarrow> bool"
where
  "raisesSchemaRecursive h m [] currentPath defaultSchema = False"
| "raisesSchemaRecursive h m ((key, schemaType) # rest) currentPath defaultSchema =
     (raisesField h m schemaType (joinPath currentPath key) (getProp defaultSchema key)
      \<or> raisesSchemaRecursive h m rest currentPath defaultSchema)"
| "raisesField h m (Prim p) newPath dv = (isPrimitiveType (Prim p) = Inl TypeError)"
| "raisesField h m (Arr (Prim p)) newPath dv = (isPrimitiveType (Prim p) = Inl TypeError)"
| "raisesField h m (Arr (Obj fs)) newPath dv =
     (isPrimitiveType (Obj fs) = Inl TypeError \<or> raisesObjArray h m fs newPath dv 0)"
| "raisesField h m (Arr (Arr t)) newPath dv =
     (isPrimitiveType (Arr t) = Inl TypeError \<or> raisesObjArray h m (entries (Arr t)) newPath dv 0)"
| "raisesField h m (Obj fs) newPath dv =
     (isPrimitiveType (Obj fs) = Inl TypeError \<or> raisesSchemaRecursive h m fs newPath dv)"
| "raisesObjArray h m fs newPath dv i =
     (if \<not> truthy h (getIndex dv i) \<and> \<not> hasPaths m (arrayPath newPath i) then False
      else raisesSchemaRecursive h m fs (arrayPath newPath i) (getIndex dv i)
           \<or> raisesObjArray h m fs newPath dv (Suc i))"
  by pat_completeness auto
termination
  apply (relation "(\<lambda>x. case x of
            Inl (h, m, fs, cp, d) \<Rightarrow> fieldsWeight fs
          | Inr (Inl (h, m, t, np, dv)) \<Rightarrow> weight t
          | Inr (Inr (h, m, fs, np, dv, i)) \<Rightarrow> Suc (fieldsWeight fs))
        <*mlex*> measure (\<lambda>x. case x of
            Inr (Inr (h, m, fs, np, dv, i)) \<Rightarrow> loopBound m dv - i
          | _ \<Rightarrow> 0)")
        apply (simp add: wf_mlex)
       apply (auto simp: mlex_prod_def fieldsWeight_def comp_def)[6]
  apply (rule mlex_leq)
   apply simp
  apply (simp)
  using hasPaths_bound truthy_getIndex_bound apply (metis diff_less_mono2 lessI)
  done

declare raisesObjArray.simps [simp del]

text \<open>
  The inputs of \<^verbatim>\<open>parseURL\<close>: a string, a \<^verbatim>\<open>URL\<close> object (given by the entries of its
  \<^verbatim>\<open>searchParams\<close>), or a \<^verbatim>\<open>URLSearchParams\<close> (given by its entries, in iteration order).
\<close>

datatype input =
  DString string | DURL "(string \<times> string) list" | DParams "(string \<times> string) list"

text \<open>
  \<^verbatim>\<open>new URL(data)\<close> without a base: the URL parser strips leading control characters and
  spaces, drops tabs and newlines, and fails unless the text starts with a scheme (a
  letter, then letters, digits, \<^verbatim>\<open>+\<close>, \<^verbatim>\<open>-\<close> or \<^verbatim>\<open>.\<close>, then a colon). What it makes of a
  string that has a scheme is left to the host.
\<close>

definition isSchemeChar :: "char \<Rightarrow> bool" where
  "isSchemeChar c \<longleftrightarrow>
     c \<in> set ''abcdefghijklmnopqrstuvwxyzABCDEFGHIJKLMNOPQRSTUVWXYZ0123456789+-.''"

definition isAsciiAlpha :: "char \<Rightarrow> bool" where
  "isAsciiAlpha c \<longleftrightarrow> c \<in> set ''abcdefghijklmnopqrstuvwxyzABCDEFGHIJKLMNOPQRSTUVWXYZ''"

definition hasScheme :: "string \<Rightarrow> bool" where
  "hasScheme s =
     (case filter (\<lambda>c. c \<notin> set [CHR 0x09, CHR 0x0A, CHR 0x0D])
             (dropWhile (\<lambda>c. (of_char c :: nat) \<le> 32) s) of
        [] \<Rightarrow> False
      | c # r \<Rightarrow> isAsciiAlpha c \<and> (case dropWhile isSchemeChar r of [] \<Rightarrow> False | x # _ \<Rightarrow> x = CHR '':''))"

definition newURL :: "('n, 'd) host \<Rightarrow> string \<Rightarrow> (string \<times> string) list option" where
  "newURL h s = (if hasScheme s then urlSearchParams h s else None)"

definition getSearchParams :: "('n, 'd) host \<Rightarrow> input \<Rightarrow> error + (string \<times> string) list" where
  "getSearchParams h data =
     (case data of
        DString s \<Rightarrow> (case newURL h s of None \<Rightarrow> Inl TypeError | Some sp \<Rightarrow> Inr sp)
      | DURL sp \<Rightarrow> Inr sp
      | DParams sp \<Rightarrow> Inr sp)"

definition parseURL ::
  "('n, 'd) host \<Rightarrow> input \<Rightarrow> (string \<times> schema) list \<Rightarrow> ('n, 'd) jsval \<Rightarrow> error + ('n, 'd) jsval" where
  "parseURL h data schema defaultValue =
     (case getSearchParams h data of
        Inl e \<Rightarrow> Inl e
      | Inr searchParams \<Rightarrow>
          if raisesSchemaRecursive h (new_Map searchParams) schema [] defaultValue
          then Inl TypeError
          else Inr (ObjV (parseSchemaRecursive h (new_Map searchParams) schema [] defaultValue)))"

section \<open>A sample host\<close>

text \<open>
  A small host, to evaluate the codec on concrete inputs: numbers are the integers in
  decimal notation, a date is kept as its ISO text \<^verbatim>\<open>YYYY-MM-DDTHH:MM:SS.sssZ\<close>, and the
  search parameters of a URL are the \<^verbatim>\<open>name=value\<close> pairs between the first \<^verbatim>\<open>?\<close> and the
  fragment (without percent-decoding); a built-in function prints as
  \<^verbatim>\<open>function name() { [native code] }\<close>.
\<close>

definition digitValue :: "char \<Rightarrow> nat" where
  "digitValue c = length (takeWhile (\<lambda>d. d \<noteq> c) ''0123456789'')"

definition readNat :: "string \<Rightarrow> nat" where
  "readNat s = foldl (\<lambda>a c. 10 * a + digitValue c) 0 s"

definition showInt :: "int \<Rightarrow> string" where
  "showInt n = (if n < 0 then ''-'' @ showNat (nat (- n)) else showNat (nat n))"

definition sampleNumber :: "string \<Rightarrow> int option" where
  "sampleNumber s =
     (if matchesDigits s then Some (int (readNat s))
      else (case s of
              [] \<Rightarrow> None
            | c # r \<Rightarrow> if c = CHR ''-'' \<and> matchesDigits r then Some (- int (readNat r)) else None))"

definition isoShape :: "string \<Rightarrow> bool" where
  "isoShape s \<longleftrightarrow>
     list_all2 (\<lambda>c q. if q = CHR ''d'' then isDigit c else c = q) s ''dddd-dd-ddTdd:dd:dd.dddZ''"

definition sampleDate :: "string \<Rightarrow> string option" where
  "sampleDate s = (if isoShape s then Some s else None)"

definition sampleQuery :: "string \<Rightarrow> (string \<times> string) list option" where
  "sampleQuery s =
     Some (map (\<lambda>q. (takeWhile (\<lambda>c. c \<noteq> CHR ''='') q, drop 1 (dropWhile (\<lambda>c. c \<noteq> CHR ''='') q)))
            (filter (\<lambda>q. q \<noteq> [])
               (splitOn CHR ''&''
                  (drop 1 (dropWhile (\<lambda>c. c \<noteq> CHR ''?'') (takeWhile (\<lambda>c. c \<noteq> CHR ''#'') s))))))"

definition sampleHost :: "(int, string) host" where
  "sampleHost =
     \<lparr>parseNumber = sampleNumber, numberIsZero = (\<lambda>n. n = 0), numberToString = showInt,
      parseDate = sampleDate, dateToISOString = (\<lambda>d. d), dateToString = (\<lambda>d. d),
      urlSearchParams = sampleQuery,
      functionToString = (\<lambda>name. ''function '' @ name @ ''() { [native code] }'')\<rparr>"

section \<open>Notions of the specification\<close>

text \<open>
  Last-write-wins as the specification words it: of the entries with the same key, only
  the last occurrence is kept.
\<close>

fun lastWins :: "(string \<times> string) list \<Rightarrow> (string \<times> string) list" where
  "lastWins [] = []"
| "lastWins ((k, v) # rest) = (if k \<in> fst ` set rest then lastWins rest else (k, v) # lastWins rest)"


text \<open>
  The keys \<^verbatim>\<open>parseSchemaRecursive\<close> can be sensitive to: the path of a primitive leaf,
  the path of an element of an array of primitives (with the index as \<^verbatim>\<open>`${i}`\<close> prints
  it), and any key that begins with the text \<^verbatim>\<open>`${newPath}.${i}`\<close> of an element of an
  array of objects.
\<close>

definition stripPrefix :: "string \<Rightarrow> string \<Rightarrow> string option" where
  "stripPrefix p k = (if prefix p k then Some (drop (length p) k) else None)"

definition isIndexOf :: "string \<Rightarrow> string \<Rightarrow> bool" where
  "isIndexOf newPath k =
     (case stripPrefix (newPath @ ''.'') k of
        None \<Rightarrow> False
      | Some r \<Rightarrow> matchesDigits r \<and> (r = ''0'' \<or> hd r \<noteq> CHR ''0''))"

definition startsWithIndex :: "string \<Rightarrow> string \<Rightarrow> bool" where
  "startsWithIndex newPath k =
     (case stripPrefix (newPath @ ''.'') k of
        None \<Rightarrow> False
      | Some r \<Rightarrow> r \<noteq> [] \<and> isDigit (hd r))"

fun consultedFields :: "(string \<times> schema) list \<Rightarrow> string \<Rightarrow> string \<Rightarrow> bool"
  and consultedField :: "schema \<Rightarrow> string \<Rightarrow> string \<Rightarrow> bool" where
  "consultedFields [] currentPath k = False"
| "consultedFields ((key, schemaType) # rest) currentPath k =
     (consultedField schemaType (joinPath currentPath key) k \<or> consultedFields rest currentPath k)"
| "consultedField (Prim p) newPath k = (k = newPath)"
| "consultedField (Arr (Prim p)) newPath k = isIndexOf newPath k"
| "consultedField (Arr (Obj fs)) newPath k = startsWithIndex newPath k"
| "consultedField (Arr (Arr t)) newPath k = startsWithIndex newPath k"
| "consultedField (Obj fs) newPath k = consultedFields fs newPath k"

text \<open>
  The keys that begin with the text \<^verbatim>\<open>`${newPath}.${i}`\<close> of an element of an array of
  objects: after the path of the array and a dot comes a digit.
\<close>

fun arrayPrefixFields :: "(string \<times> schema) list \<Rightarrow> string \<Rightarrow> string \<Rightarrow> bool"
  and arrayPrefixField :: "schema \<Rightarrow> string \<Rightarrow> string \<Rightarrow> bool" where
  "arrayPrefixFields [] currentPath k = False"
| "arrayPrefixFields ((key, schemaType) # rest) currentPath k =
     (arrayPrefixField schemaType (joinPath currentPath key) k \<or> arrayPrefixFields rest currentPath k)"
| "arrayPrefixField (Prim p) newPath k = False"
| "arrayPrefixField (Arr (Prim p)) newPath k = False"
| "arrayPrefixField (Arr (Obj fs)) newPath k = startsWithIndex newPath k"
| "arrayPrefixField (Arr (Arr t)) newPath k = startsWithIndex newPath k"
| "arrayPrefixField (Obj fs) newPath k = arrayPrefixFields fs newPath k"

text \<open>The dotted path of a list of segments.\<close>

definition segmentsOf :: "string list \<Rightarrow> string" where
  "segmentsOf ps = foldl joinPath [] ps"

section \<open>Serialization\<close>

text \<open>
  Modelled from the spec: the serializer, which belongs to the reactive layer and is not
  among the sources. It walks the schema against the value tree, emits one flat key per
  primitive leaf, skips the leaves that \<^verbatim>\<open>stringifyPrimitive\<close> turns into \<^verbatim>\<open>null\<close>, and
  rebuilds the dotted key paths (an array element under its index).
\<close>

text \<open>
  Modelled from the spec: the key a primitive leaf emits, none when it stringifies to
  \<^verbatim>\<open>null\<close>; and the elements of a value that is an array.
\<close>

definition leafEntry ::
  "('n, 'd) host \<Rightarrow> primitive \<Rightarrow> string \<Rightarrow> ('n, 'd) jsval \<Rightarrow> (string \<times> string) list" where
  "leafEntry h p path v =
     (case v of
        Leaf a \<Rightarrow> (case stringifyPrimitive h p a of None \<Rightarrow> [] | Some s \<Rightarrow> [(path, s)])
      | _ \<Rightarrow> [])"

definition items :: "('n, 'd) jsval \<Rightarrow> ('n, 'd) jsval list" where
  "items v = (case v of ArrV xs \<Rightarrow> xs | _ \<Rightarrow> [])"

text \<open>
  Modelled from the spec: the elements of an array of primitives, the next key to write
  being \<^verbatim>\<open>`${newPath}.${i}`\<close>. The parser ends an array at the first index without a key,
  and the specification has the \<^verbatim>\<open>null\<close> leaves vanish in a round trip while no other leaf
  changes: the indices written are contiguous. An element that emits no key takes no
  index; the elements after it move down.
\<close>

fun serializePrimItems ::
  "('n, 'd) host \<Rightarrow> primitive \<Rightarrow> string \<Rightarrow> ('n, 'd) jsval list \<Rightarrow> nat \<Rightarrow> (string \<times> string) list" where
  "serializePrimItems h p newPath [] i = []"
| "serializePrimItems h p newPath (x # xs) i =
     (if leafEntry h p (arrayPath newPath i) x = [] then serializePrimItems h p newPath xs i
      else leafEntry h p (arrayPath newPath i) x @ serializePrimItems h p newPath xs (Suc i))"

text \<open>
  Modelled from the spec: the walk of the serializer over the fields of an object, one
  field, and the elements of an array of objects, with the same cases and the same key
  paths as the parser. An element of an array of objects that emits no key (all its
  leaves are \<^verbatim>\<open>null\<close>) takes no index either.
\<close>

fun serializeFields ::
    "('n, 'd) host \<Rightarrow> (string \<times> schema) list \<Rightarrow> string \<Rightarrow> ('n, 'd) jsval \<Rightarrow> (string \<times> string) list"
  and serializeField ::
    "('n, 'd) host \<Rightarrow> schema \<Rightarrow> string \<Rightarrow> ('n, 'd) jsval \<Rightarrow> (string \<times> string) list"
  and serializeObjItems ::
    "('n, 'd) host \<Rightarrow> (string \<times> schema) list \<Rightarrow> string \<Rightarrow> ('n, 'd) jsval list \<Rightarrow> nat
       \<Rightarrow> (string \<times> string) list" where
  "serializeFields h [] currentPath v = []"
| "serializeFields h ((key, schemaType) # rest) currentPath v =
     serializeField h schemaType (joinPath currentPath key) (getProp v key)
       @ serializeFields h rest currentPath v"
| "serializeField h (Prim p) newPath v = leafEntry h p newPath v"
| "serializeField h (Arr (Prim p)) newPath v = serializePrimItems h p newPath (items v) 0"
| "serializeField h (Arr (Obj fs)) newPath v = serializeObjItems h fs newPath (items v) 0"
| "serializeField h (Arr (Arr t)) newPath v =
     serializeObjItems h (entries (Arr t)) newPath (items v) 0"
| "serializeField h (Obj fs) newPath v = serializeFields h fs newPath v"
| "serializeObjItems h fs newPath [] i = []"
| "serializeObjItems h fs newPath (x # xs) i =
     (if serializeFields h fs (arrayPath newPath i) x = [] then serializeObjItems h fs newPath xs i
      else serializeFields h fs (arrayPath newPath i) x
             @ serializeObjItems h fs newPath xs (Suc i))"

text \<open>
  A tree restricted to its non-null leaves, as the round trip of the specification has
  it: the \<^verbatim>\<open>null\<close> elements of an array of primitives vanish, and so do the elements of an
  array of objects that hold no leaf other than \<^verbatim>\<open>null\<close>; a field of an object stays, a
  \<^verbatim>\<open>null\<close> leaf as \<^verbatim>\<open>null\<close>. \<open>nonNullFields\<close> tells whether an object holds a leaf that is not
  \<^verbatim>\<open>null\<close>, at any depth.
\<close>

fun nonNullFields :: "(string \<times> schema) list \<Rightarrow> ('n, 'd) jsval \<Rightarrow> bool"
  and nonNullField :: "schema \<Rightarrow> ('n, 'd) jsval \<Rightarrow> bool"
  and nonNullItems :: "(string \<times> schema) list \<Rightarrow> ('n, 'd) jsval list \<Rightarrow> bool" where
  "nonNullFields [] v = False"
| "nonNullFields ((key, schemaType) # rest) v =
     (nonNullField schemaType (getProp v key) \<or> nonNullFields rest v)"
| "nonNullField (Prim p) v = (v \<noteq> Leaf Null)"
| "nonNullField (Arr (Prim p)) v = list_ex (\<lambda>x. x \<noteq> Leaf Null) (items v)"
| "nonNullField (Arr (Obj fs)) v = nonNullItems fs (items v)"
| "nonNullField (Arr (Arr t)) v = nonNullItems (entries (Arr t)) (items v)"
| "nonNullField (Obj fs) v = nonNullFields fs v"
| "nonNullItems fs [] = False"
| "nonNullItems fs (x # xs) = (nonNullFields fs x \<or> nonNullItems fs xs)"

fun restrictFields :: "(string \<times> schema) list \<Rightarrow> ('n, 'd) jsval \<Rightarrow> (string \<times> ('n, 'd) jsval) list"
  and restrictField :: "schema \<Rightarrow> ('n, 'd) jsval \<Rightarrow> ('n, 'd) jsval"
  and restrictItems :: "(string \<times> schema) list \<Rightarrow> ('n, 'd) jsval list \<Rightarrow> ('n, 'd) jsval list" where
  "restrictFields [] v = []"
| "restrictFields ((key, schemaType) # rest) v =
     (key, restrictField schemaType (getProp v key)) # restrictFields rest v"
| "restrictField (Prim p) v = v"
| "restrictField (Arr (Prim p)) v = ArrV (filter (\<lambda>x. x \<noteq> Leaf Null) (items v))"
| "restrictField (Arr (Obj fs)) v = ArrV (restrictItems fs (items v))"
| "restrictField (Arr (Arr t)) v = ArrV (restrictItems (entries (Arr t)) (items v))"
| "restrictField (Obj fs) v = ObjV (restrictFields fs v)"
| "restrictItems fs [] = []"
| "restrictItems fs (x # xs) =
     (if nonNullFields fs x then ObjV (restrictFields fs x) # restrictItems fs xs
      else restrictItems fs xs)"

section \<open>Paths of nested fields\<close>





section \<open>Well-formed schemas, regions of keys\<close>

text \<open>
  The key grammar of the specification: a schema key is not empty and holds no dot, and
  the keys of one object are distinct.
\<close>

definition wfKey :: "string \<Rightarrow> bool" where
  "wfKey key \<longleftrightarrow> key \<noteq> [] \<and> CHR ''.'' \<notin> set key"

fun wfFields :: "(string \<times> schema) list \<Rightarrow> bool"
  and wfSchema :: "schema \<Rightarrow> bool" where
  "wfFields [] = True"
| "wfFields ((key, schemaType) # rest) =
     (wfKey key \<and> key \<notin> fst ` set rest \<and> wfSchema schemaType \<and> wfFields rest)"
| "wfSchema (Prim p) = True"
| "wfSchema (Arr t) = wfSchema t"
| "wfSchema (Obj fs) = wfFields fs"

text \<open>
  The host prints numbers and dates so that it reads them back: for every number or date
  that a string parses to, the printed form is not empty, is not \<^verbatim>\<open>null\<close>, and parses to the
  same value.
\<close>

definition hostRoundTrips :: "('n, 'd) host \<Rightarrow> bool" where
  "hostRoundTrips h \<longleftrightarrow>
     (\<forall>s n. parseNumber h s = Some n \<longrightarrow>
        numberToString h n \<noteq> [] \<and> numberToString h n \<noteq> ''null''
        \<and> parseNumber h (numberToString h n) = Some n)
     \<and> (\<forall>s d. parseDate h s = Some d \<longrightarrow>
        dateToISOString h d \<noteq> [] \<and> dateToISOString h d \<noteq> ''null''
        \<and> parseDate h (dateToISOString h d) = Some d)"

text \<open>
  The keys of a field at \<open>newPath\<close>: the path itself and the keys that extend it by a dot;
  the keys of the fields of an object; the keys of the element \<open>j\<close> of an array. A map
  agrees with a serialization on a region when, on the region, it binds what the
  serialization binds (the last binding of a key) and has no other key.
\<close>

definition inFamily :: "string \<Rightarrow> string \<Rightarrow> bool" where
  "inFamily newPath q \<longleftrightarrow> q = newPath \<or> prefix (newPath @ ''.'') q"

definition inFields :: "(string \<times> schema) list \<Rightarrow> string \<Rightarrow> string \<Rightarrow> bool" where
  "inFields fs currentPath q \<longleftrightarrow> (\<exists>key \<in> fst ` set fs. inFamily (joinPath currentPath key) q)"

definition agreesOn :: "(string \<Rightarrow> bool) \<Rightarrow> pathMap \<Rightarrow> (string \<times> string) list \<Rightarrow> bool" where
  "agreesOn R m' S \<longleftrightarrow>
     (\<forall>q. R q \<longrightarrow> Map_get m' q = map_of (rev S) q)
     \<and> (\<forall>k \<in> set (Map_keys m'). R k \<longrightarrow> k \<in> fst ` set S)"

definition inElem :: "string \<Rightarrow> nat \<Rightarrow> string \<Rightarrow> bool" where
  "inElem newPath j q \<longleftrightarrow> prefix (arrayPath newPath j @ ''.'') q"

section \<open>Results\<close>

lemma splitOn_not_Nil: "splitOn c s \<noteq> []"
  by (induction s) (auto split: list.splits)

text \<open>Every primitive of the model is a tag that \<^verbatim>\<open>isPrimitive\<close> accepts.\<close>

lemma isPrimitive_tagOf: "isPrimitive (tagOf p)"
proof (cases p)
  case (PEnum inner)
  have "suffix ''>'' ((''<'' @ inner) @ ''>'')" by (rule suffix_appendI) simp
  then show ?thesis by (simp add: PEnum isPrimitive_def)
qed (simp_all add: isPrimitive_def)

text \<open>
  \<^verbatim>\<open>isPrimitive(type)\<close> by the form of \<^verbatim>\<open>type\<close>: true on a tag, false on an array and on an
  object, but for the object with an own key \<^verbatim>\<open>startsWith\<close>, where it throws.
\<close>

lemma isPrimitiveType_cases:
  "isPrimitiveType (Prim p) = Inr True"
  "isPrimitiveType (Arr t) = Inr False"
  "isPrimitiveType (Obj fs) = (if ''startsWith'' \<in> fst ` set fs then Inl TypeError else Inr False)"
proof -
  show "isPrimitiveType (Prim p) = Inr True" by (simp add: isPrimitiveType_def isPrimitive_tagOf)
  show "isPrimitiveType (Arr t) = Inr False" by (simp add: isPrimitiveType_def)
  have "map_of fs ''startsWith'' = None \<longleftrightarrow> ''startsWith'' \<notin> fst ` set fs"
    by (rule map_of_eq_None_iff)
  then show "isPrimitiveType (Obj fs) = (if ''startsWith'' \<in> fst ` set fs then Inl TypeError else Inr False)"
    by (cases "map_of fs ''startsWith''") (auto simp: isPrimitiveType_def)
qed

subsection \<open>The flat parameter map as a finite map\<close>

lemma map_of_Map_set: "map_of (Map_set m k v) = (map_of m)(k \<mapsto> v)"
  by (induction m) (auto simp: fun_eq_iff)

lemma keys_Map_set: "fst ` set (Map_set m k v) = insert k (fst ` set m)"
proof -
  have "fst ` set (Map_set m k v) = dom (map_of (Map_set m k v))"
    by (simp only: dom_map_of_conv_image_fst)
  also have "\<dots> = insert k (dom (map_of m))" by (simp only: map_of_Map_set dom_fun_upd) simp
  also have "\<dots> = insert k (fst ` set m)" by (simp only: dom_map_of_conv_image_fst)
  finally show ?thesis .
qed

lemma map_of_foldl_Map_set:
  "map_of (foldl (\<lambda>m (k, v). Map_set m k v) acc paths) = map_of acc ++ map_of (rev paths)"
proof (induction paths arbitrary: acc)
  case Nil
  show ?case by simp
next
  case (Cons e paths)
  obtain k v where e: "e = (k, v)" by (cases e)
  have a: "map_of acc ++ map_of (rev paths @ [(k, v)]) = (map_of acc)(k \<mapsto> v) ++ map_of (rev paths)"
    by (auto simp: fun_eq_iff map_add_def split: option.splits)
  have "map_of (foldl (\<lambda>m (k, v). Map_set m k v) acc (e # paths))
      = map_of (Map_set acc k v) ++ map_of (rev paths)"
    by (simp add: e Cons)
  also have "\<dots> = (map_of acc)(k \<mapsto> v) ++ map_of (rev paths)"
    by (simp only: map_of_Map_set)
  also have "\<dots> = map_of acc ++ map_of (rev (e # paths))"
    using a by (simp add: e)
  finally show ?case .
qed

lemma keys_foldl_Map_set:
  "fst ` set (foldl (\<lambda>m (k, v). Map_set m k v) acc paths) = fst ` set acc \<union> fst ` set paths"
proof (induction paths arbitrary: acc)
  case Nil
  show ?case by simp
next
  case (Cons e paths)
  obtain k v where e: "e = (k, v)" by (cases e)
  show ?case by (simp add: e Cons keys_Map_set)
qed

lemma Map_get_new_Map: "Map_get (new_Map paths) q = map_of (rev paths) q"
  by (simp add: Map_get_def new_Map_def map_of_foldl_Map_set)

lemma hasPaths_new_Map: "hasPaths (new_Map paths) p \<longleftrightarrow> (\<exists>k \<in> fst ` set paths. prefix p k)"
proof -
  have "set (Map_keys (new_Map paths)) = fst ` set paths"
    by (simp add: Map_keys_def new_Map_def keys_foldl_Map_set)
  then show ?thesis by (simp add: hasPaths_def list_ex_iff)
qed

lemma keys_lastWins: "fst ` set (lastWins paths) = fst ` set paths"
  by (induction paths rule: lastWins.induct) auto

lemma map_of_rev_lastWins: "map_of (rev (lastWins paths)) = map_of (rev paths)"
proof (induction paths rule: lastWins.induct)
  case 1
  show ?case by simp
next
  case (2 k v rest)
  show ?case
  proof (cases "k \<in> fst ` set rest")
    case True
    then have "k \<in> dom (map_of (rev rest))" by (simp add: dom_map_of_conv_image_fst)
    then have "map_of [(k, v)] ++ map_of (rev rest) = map_of (rev rest)"
      by (auto simp: fun_eq_iff map_add_def split: option.splits)
    with True 2 show ?thesis by simp
  next
    case False
    with 2 show ?thesis by simp
  qed
qed

subsection \<open>Debounce\<close>

text \<open>
  C8, as stated, fails: with the delay \<^verbatim>\<open>false\<close> the function that \<^verbatim>\<open>debounce\<close> returns
  is \<^verbatim>\<open>() => {}\<close>. Invoking it on a counter that \<^verbatim>\<open>fn\<close> would increment leaves the counter
  as it was.
\<close>

theorem debounce_false_skips_fn:
  "app (snd (debounce Suc DelayFalse (None, \<lparr>app = 0, clock = 0, nextHandle = 0, timers = []\<rparr>)))
     \<noteq> Suc (app \<lparr>app = 0 :: nat, clock = 0, nextHandle = 0, timers = []\<rparr>)"
  by (simp add: debounce_def)

text \<open>
  C8, amended: for every function \<^verbatim>\<open>fn\<close>, when \<^verbatim>\<open>debounce\<close> is called with the delay
  \<^verbatim>\<open>false\<close>, invoking the returned function does nothing: \<^verbatim>\<open>fn\<close> is not executed, no
  timer is set or cleared, and the state is unchanged.
\<close>

theorem debounce_false_noop:
  "debounce fn DelayFalse (timeout, w) = (timeout, w)"
  by (simp add: debounce_def)

text \<open>With a numeric delay the first invocation only schedules \<^verbatim>\<open>fn\<close>.\<close>

lemma debounce_delay_schedules:
  "debounce fn (DelayMs ms) (None, w) =
     (Some (nextHandle w),
      w\<lparr>nextHandle := Suc (nextHandle w), timers := timers w @ [(nextHandle w, clock w + ms, fn)]\<rparr>)"
  by (simp add: debounce_def clearTimeout_def setTimeout_def)

subsection \<open>The path resolver\<close>

text \<open>
  On a path none of whose segments is a property name of \<^verbatim>\<open>Object.prototype\<close>,
  \<^verbatim>\<open>isValidPath\<close> is the resolver of the specification.
\<close>

lemma walk_resolves:
  "list_all (\<lambda>part. part \<notin> set objectPrototypeKeys) parts \<Longrightarrow>
     walk (NSchema s) parts = resolves s parts"
proof (induction s parts rule: resolves.induct)
  case (4 fs seg segs)
  then show ?case by (cases "map_of fs seg") auto
qed auto

lemma isValidPath_resolves:
  "list_all (\<lambda>part. part \<notin> set objectPrototypeKeys) (splitOn CHR ''.'' path) \<Longrightarrow>
     isValidPath path schema = resolves schema (splitOn CHR ''.'' path)"
  by (simp add: isValidPath_def walk_resolves)

text \<open>
  C9: \<^verbatim>\<open>isValidPath\<close> is to return true exactly when every segment resolves, an object
  node taking only a segment that is one of its keys. The test \<^verbatim>\<open>part in currentSchema\<close>
  also accepts the names an object inherits: under the schema \<^verbatim>\<open>{id: 'number'}\<close> the path
  \<^verbatim>\<open>toString\<close> is accepted, although it resolves to no key of the schema.
\<close>

theorem isValidPath_inherited_key:
  "isValidPath ''toString'' (Obj [(''id'', Prim PNumber)])
   \<and> \<not> resolves (Obj [(''id'', Prim PNumber)]) (splitOn CHR ''.'' ''toString'')"
  by (simp add: isValidPath_def objectPrototypeKeys_def inheritedValue_def)

subsection \<open>Enum leaves\<close>

text \<open>
  C6: for an enum leaf with the literal set \<open>S\<close>, the parsed value is a member of \<open>S\<close> or
  \<^verbatim>\<open>null\<close> (whatever the raw value and the default are); a raw string that is not exactly
  a member parses to \<^verbatim>\<open>null\<close>, never to the default; a value that is not a member
  stringifies to \<^verbatim>\<open>null\<close>, and a member stringifies to itself.
\<close>

theorem enum_member_or_null:
  "coercePrimitive h (PEnum inner) raw dv \<in> insert Null (Str ` set (enumLiterals inner))
   \<and> (s \<notin> set (enumLiterals inner) \<longrightarrow> coercePrimitive h (PEnum inner) (Some s) dv = Null)
   \<and> (v \<notin> Str ` set (enumLiterals inner) \<longrightarrow> stringifyPrimitive h (PEnum inner) v = None)
   \<and> (s' \<in> set (enumLiterals inner) \<longrightarrow> stringifyPrimitive h (PEnum inner) (Str s') = Some s')"
proof -
  have "coercePrimitive h (PEnum inner) raw dv \<in> insert Null (Str ` set (enumLiterals inner))"
  proof (cases raw)
    case (Some s)
    then show ?thesis by simp
  next
    case None
    then show ?thesis
      by (cases "(h, PEnum inner, None :: string option, dv)" rule: coercePrimitive.cases) auto
  qed
  moreover have "v \<notin> Str ` set (enumLiterals inner) \<longrightarrow> stringifyPrimitive h (PEnum inner) v = None"
    by (cases v) auto
  ultimately show ?thesis by simp
qed

text \<open>
  C6 at the enum \<^verbatim>\<open><red,green,blue>\<close>: \<^verbatim>\<open>yellow\<close> parses to \<^verbatim>\<open>null\<close> although the default is
  \<^verbatim>\<open>red\<close>, \<^verbatim>\<open>prout\<close> stringifies to \<^verbatim>\<open>null\<close>, \<^verbatim>\<open>red\<close> passes both ways.
\<close>

theorem enum_member_or_null_witness:
  "''yellow'' \<notin> set (enumLiterals ''red,green,blue'')
   \<and> coercePrimitive sampleHost (PEnum ''red,green,blue'') (Some ''yellow'') (Leaf (Str ''red'')) = Null
   \<and> (Str ''prout'' :: (int, string) jsprim) \<notin> Str ` set (enumLiterals ''red,green,blue'')
   \<and> stringifyPrimitive sampleHost (PEnum ''red,green,blue'') (Str ''prout'') = None
   \<and> ''red'' \<in> set (enumLiterals ''red,green,blue'')
   \<and> stringifyPrimitive sampleHost (PEnum ''red,green,blue'') (Str ''red'') = Some ''red''
   \<and> coercePrimitive sampleHost (PEnum ''red,green,blue'') (Some ''red'') (Leaf Undefined) = Str ''red''"
  using enum_member_or_null[of sampleHost "''red,green,blue''" "Some ''red''" "Leaf (Str ''red'')"
      "''yellow''" "Str ''prout''" "''red''"]
  by (simp add: enumLiterals_def)

subsection \<open>Fields of the parsed object\<close>

text \<open>
  The parsed object has one entry per field of the schema: the field's own parse.
\<close>

lemma parse_lookup:
  "(key, schemaType) \<in> set schema \<Longrightarrow> distinct (map fst schema) \<Longrightarrow>
     map_of (parseSchemaRecursive h m schema currentPath d) key =
       Some (parseField h m schemaType (joinPath currentPath key) (getProp d key))"
  by (induction schema) (auto simp: rev_image_eqI)


subsection \<open>Arrays of primitives\<close>




subsection \<open>Defaults\<close>






subsection \<open>Input forms\<close>






subsection \<open>Falsy raw values\<close>

text \<open>
  C10: when a field \<open>f\<close> is an array of a primitive kind, no default is supplied for it
  and the flat parameter map binds \<^verbatim>\<open>f.0\<close> to the empty string, the parsed array is
  empty, whatever is bound at the later indices.
\<close>

theorem empty_raw_value_halts_scan:
  assumes "(f, Arr (Prim p)) \<in> set schema" and "distinct (map fst schema)"
    and "getProp d f = Leaf Undefined"
    and "Map_get m (arrayPath (joinPath currentPath f) 0) = Some []"
  shows "map_of (parseSchemaRecursive h m schema currentPath d) f = Some (ArrV [])"
proof -
  have "parsePrimArray h m p (joinPath currentPath f) (getProp d f) 0 = []"
    using assms(3,4) by (subst parsePrimArray.simps) simp
  then show ?thesis using parse_lookup[OF assms(1,2), of h m currentPath d] by simp
qed

text \<open>
  C10 at the schema \<^verbatim>\<open>{tags: ['string']}\<close> with \<^verbatim>\<open>tags.0=\<close> and \<^verbatim>\<open>tags.1=b\<close>.
\<close>

theorem empty_raw_value_halts_scan_witness:
  "map_of (parseSchemaRecursive sampleHost (new_Map [(''tags.0'', []), (''tags.1'', ''b'')])
       [(''tags'', Arr (Prim PString))] [] (Leaf Undefined)) ''tags'' = Some (ArrV [])
   \<and> Map_get (new_Map [(''tags.0'', []), (''tags.1'', ''b'')]) ''tags.1'' = Some ''b''"
proof -
  have a: "(''tags'', Arr (Prim PString)) \<in> set [(''tags'', Arr (Prim PString))]"
    and b: "distinct (map fst [(''tags'', Arr (Prim PString))])"
    and c: "getProp (Leaf Undefined :: (int, string) jsval) ''tags'' = Leaf Undefined"
    by simp_all
  have d: "Map_get (new_Map [(''tags.0'', []), (''tags.1'', ''b'')]) (arrayPath (joinPath [] ''tags'') 0) = Some []"
    by code_simp
  have e: "Map_get (new_Map [(''tags.0'', []), (''tags.1'', ''b'')]) ''tags.1'' = Some ''b''"
    by code_simp
  show ?thesis
    using empty_raw_value_halts_scan[OF a b c d, of sampleHost] e by simp
qed


subsection \<open>Decimal indices\<close>

text \<open>
  The numeral \<^verbatim>\<open>`${i}`\<close> is a non-empty run of digits without a leading zero (but for
  zero itself).
\<close>

lemma isDigit_digitChar: "d < 10 \<Longrightarrow> isDigit (digitChar d)"
proof -
  assume "d < 10"
  then have "d < length ''0123456789''" by simp
  then have "''0123456789'' ! d \<in> set ''0123456789''" by (rule nth_mem)
  then show ?thesis by (simp only: isDigit_def digitChar_def)
qed

lemma digitChar_inj: "a < 10 \<Longrightarrow> b < 10 \<Longrightarrow> digitChar a = digitChar b \<Longrightarrow> a = b"
proof -
  assume a: "a < 10" and b: "b < 10" and e: "digitChar a = digitChar b"
  have d: "distinct ''0123456789''" by simp
  have "a < length ''0123456789''" "b < length ''0123456789''" using a b by simp_all
  with d e show ?thesis unfolding digitChar_def by (simp only: nth_eq_iff_index_eq)
qed

lemma digitChar_zero: "digitChar 0 = CHR ''0''"
  by (simp add: digitChar_def)

lemma showNat_nonempty: "showNat n \<noteq> []"
  by (subst showNat.simps) simp

lemma showNat_digits: "list_all isDigit (showNat n)"
proof (induction n rule: showNat.induct)
  case (1 n)
  show ?case
  proof (cases "n < 10")
    case True
    then show ?thesis by (subst showNat.simps) (simp add: isDigit_digitChar)
  next
    case False
    with 1 show ?thesis by (subst showNat.simps) (simp add: isDigit_digitChar)
  qed
qed

lemma showNat_hd_digit: "isDigit (hd (showNat n))"
  using showNat_digits[of n] showNat_nonempty[of n] by (cases "showNat n") auto

lemma showNat_canonical: "hd (showNat n) = CHR ''0'' \<Longrightarrow> n = 0"
proof (induction n rule: showNat.induct)
  case (1 n)
  show ?case
  proof (cases "n < 10")
    case True
    with 1(2) have "digitChar n = digitChar 0"
      by (subst (asm) showNat.simps) (simp add: digitChar_zero)
    with True show ?thesis using digitChar_inj[of n 0] by simp
  next
    case False
    with 1(2) have "hd (showNat (n div 10)) = CHR ''0''"
      by (subst (asm) showNat.simps) (simp add: showNat_nonempty)
    with 1(1) False have "n div 10 = 0" by simp
    with False show ?thesis by simp
  qed
qed

lemma showNat_zero: "showNat 0 = ''0''"
  by (subst showNat.simps) (simp add: digitChar_zero)

lemma matchesDigits_showNat: "matchesDigits (showNat n)"
  by (simp add: matchesDigits_def showNat_nonempty showNat_digits)

lemma isIndexOf_arrayPath: "isIndexOf newPath (arrayPath newPath i)"
proof -
  have "showNat i = ''0'' \<or> hd (showNat i) \<noteq> CHR ''0''"
    using showNat_canonical[of i] showNat_zero by auto
  then show ?thesis
    by (simp add: isIndexOf_def arrayPath_def stripPrefix_def matchesDigits_showNat)
qed

lemma startsWithIndex_prefix: "prefix (arrayPath newPath i) k \<Longrightarrow> startsWithIndex newPath k"
proof -
  assume "prefix (arrayPath newPath i) k"
  then obtain r where k: "k = newPath @ ''.'' @ showNat i @ r"
    by (auto simp: prefix_def arrayPath_def)
  have "hd (showNat i @ r) = hd (showNat i)" by (simp add: showNat_nonempty)
  then show ?thesis
    unfolding k by (simp add: startsWithIndex_def stripPrefix_def showNat_nonempty showNat_hd_digit)
qed

subsection \<open>What the parse depends on\<close>

text \<open>
  Two flat parameter maps that agree outside a set \<open>K\<close> of keys, none of which is
  consulted, parse to the same tree.
\<close>

lemma consulted_prefix:
  "consultedFields fs currentPath k \<Longrightarrow> prefix currentPath k"
  "consultedField schemaType newPath k \<Longrightarrow> prefix newPath k"
proof (induction fs currentPath k and schemaType newPath k rule: consultedFields_consultedField.induct)
  case (2 key schemaType rest currentPath k)
  show ?case
  proof (cases "consultedField schemaType (joinPath currentPath key) k")
    case True
    then have "prefix (joinPath currentPath key) k" by (rule 2)
    then show ?thesis by (auto simp: joinPath_def split: if_splits dest: append_prefixD)
  next
    case False
    with 2 show ?thesis by simp
  qed
qed (auto simp: isIndexOf_def startsWithIndex_def stripPrefix_def split: if_splits dest: append_prefixD)

lemma parsePrimArray_agree:
  assumes "\<And>q. q \<notin> K \<Longrightarrow> Map_get m q = Map_get m' q"
    and "\<forall>k\<in>K. \<not> isIndexOf newPath k"
  shows "parsePrimArray h m p newPath dv i = parsePrimArray h m' p newPath dv i"
  using assms
proof (induction h m p newPath dv i rule: parsePrimArray.induct)
  case (1 h m p newPath dv i)
  have "arrayPath newPath i \<notin> K" using 1(3) isIndexOf_arrayPath by blast
  then have g: "Map_get m (arrayPath newPath i) = Map_get m' (arrayPath newPath i)" by (rule 1(2))
  show ?case
  proof (cases "\<not> truthyRaw (Map_get m (arrayPath newPath i)) \<and> \<not> truthy h (getIndex dv i)")
    case True
    then show ?thesis using g by (subst (1 2) parsePrimArray.simps) simp
  next
    case False
    then have "parsePrimArray h m p newPath dv (Suc i) = parsePrimArray h m' p newPath dv (Suc i)"
      using 1 by blast
    then show ?thesis using g by (subst (1 2) parsePrimArray.simps) simp
  qed
qed

lemma parse_agree:
  "(\<And>q. q \<notin> K \<Longrightarrow> Map_get m q = Map_get m' q) \<Longrightarrow>
   (\<And>p. \<forall>k\<in>K. \<not> prefix p k \<Longrightarrow> hasPaths m p = hasPaths m' p) \<Longrightarrow>
   \<forall>k\<in>K. \<not> consultedFields fs currentPath k \<Longrightarrow>
     parseSchemaRecursive h m fs currentPath d = parseSchemaRecursive h m' fs currentPath d"
  "(\<And>q. q \<notin> K \<Longrightarrow> Map_get m q = Map_get m' q) \<Longrightarrow>
   (\<And>p. \<forall>k\<in>K. \<not> prefix p k \<Longrightarrow> hasPaths m p = hasPaths m' p) \<Longrightarrow>
   \<forall>k\<in>K. \<not> consultedField schemaType newPath k \<Longrightarrow>
     parseField h m schemaType newPath dv = parseField h m' schemaType newPath dv"
  "(\<And>q. q \<notin> K \<Longrightarrow> Map_get m q = Map_get m' q) \<Longrightarrow>
   (\<And>p. \<forall>k\<in>K. \<not> prefix p k \<Longrightarrow> hasPaths m p = hasPaths m' p) \<Longrightarrow>
   \<forall>k\<in>K. \<not> startsWithIndex newPath' k \<Longrightarrow>
     parseObjArray h m fs' newPath' dv' i = parseObjArray h m' fs' newPath' dv' i"
proof (induction h m fs currentPath d and h m schemaType newPath dv and h m fs' newPath' dv' i
    rule: parseSchemaRecursive_parseField_parseObjArray.induct)
  case (1 h m currentPath defaultSchema)
  show ?case by simp
next
  case (2 h m key schemaType rest currentPath defaultSchema)
  then show ?case by simp
next
  case (3 h m p newPath dv)
  then have "newPath \<notin> K" by auto
  then have "Map_get m newPath = Map_get m' newPath" by (rule 3(1))
  then show ?case by simp
next
  case (4 h m p newPath dv)
  then show ?case using parsePrimArray_agree[of K m m' newPath] by simp
next
  case (5 h m fs newPath dv)
  then show ?case by simp
next
  case (6 h m t newPath dv)
  then show ?case by simp
next
  case (7 h m fs newPath dv)
  then show ?case by simp
next
  case (8 h m fs newPath dv i)
  have np: "\<forall>k\<in>K. \<not> prefix (arrayPath newPath i) k"
    using 8(5) startsWithIndex_prefix by blast
  then have hp: "hasPaths m (arrayPath newPath i) = hasPaths m' (arrayPath newPath i)"
    by (rule 8(4))
  have nc: "\<forall>k\<in>K. \<not> consultedFields fs (arrayPath newPath i) k"
    using np consulted_prefix(1) by blast
  show ?case
  proof (cases "\<not> truthy h (getIndex dv i) \<and> \<not> hasPaths m (arrayPath newPath i)")
    case True
    then show ?thesis using hp by (subst (1 2) parseObjArray.simps) simp
  next
    case False
    have a: "parseSchemaRecursive h m fs (arrayPath newPath i) (getIndex dv i)
        = parseSchemaRecursive h m' fs (arrayPath newPath i) (getIndex dv i)"
      using 8(1)[OF False 8(3) 8(4) nc] .
    have b: "parseObjArray h m fs newPath dv (Suc i) = parseObjArray h m' fs newPath dv (Suc i)"
      using 8(2)[OF False 8(3) 8(4) 8(5)] .
    show ?thesis using a b hp by (subst (1 2) parseObjArray.simps) simp
  qed
qed

text \<open>Under the same condition, the two runs raise an exception alike.\<close>

lemma raises_agree:
  "(\<And>q. q \<notin> K \<Longrightarrow> Map_get m q = Map_get m' q) \<Longrightarrow>
   (\<And>p. \<forall>k\<in>K. \<not> prefix p k \<Longrightarrow> hasPaths m p = hasPaths m' p) \<Longrightarrow>
   \<forall>k\<in>K. \<not> consultedFields fs currentPath k \<Longrightarrow>
     raisesSchemaRecursive h m fs currentPath d = raisesSchemaRecursive h m' fs currentPath d"
  "(\<And>q. q \<notin> K \<Longrightarrow> Map_get m q = Map_get m' q) \<Longrightarrow>
   (\<And>p. \<forall>k\<in>K. \<not> prefix p k \<Longrightarrow> hasPaths m p = hasPaths m' p) \<Longrightarrow>
   \<forall>k\<in>K. \<not> consultedField schemaType newPath k \<Longrightarrow>
     raisesField h m schemaType newPath dv = raisesField h m' schemaType newPath dv"
  "(\<And>q. q \<notin> K \<Longrightarrow> Map_get m q = Map_get m' q) \<Longrightarrow>
   (\<And>p. \<forall>k\<in>K. \<not> prefix p k \<Longrightarrow> hasPaths m p = hasPaths m' p) \<Longrightarrow>
   \<forall>k\<in>K. \<not> startsWithIndex newPath' k \<Longrightarrow>
     raisesObjArray h m fs' newPath' dv' i = raisesObjArray h m' fs' newPath' dv' i"
proof (induction h m fs currentPath d and h m schemaType newPath dv and h m fs' newPath' dv' i
    rule: raisesSchemaRecursive_raisesField_raisesObjArray.induct)
  case (1 h m currentPath defaultSchema)
  show ?case by simp
next
  case (2 h m key schemaType rest currentPath defaultSchema)
  then show ?case by simp
next
  case (3 h m p newPath dv)
  show ?case by simp
next
  case (4 h m p newPath dv)
  show ?case by simp
next
  case (5 h m fs newPath dv)
  then show ?case by simp
next
  case (6 h m t newPath dv)
  then show ?case by simp
next
  case (7 h m fs newPath dv)
  then show ?case by simp
next
  case (8 h m fs newPath dv i)
  have np: "\<forall>k\<in>K. \<not> prefix (arrayPath newPath i) k"
    using 8(5) startsWithIndex_prefix by blast
  then have hp: "hasPaths m (arrayPath newPath i) = hasPaths m' (arrayPath newPath i)"
    by (rule 8(4))
  have nc: "\<forall>k\<in>K. \<not> consultedFields fs (arrayPath newPath i) k"
    using np consulted_prefix(1) by blast
  show ?case
  proof (cases "\<not> truthy h (getIndex dv i) \<and> \<not> hasPaths m (arrayPath newPath i)")
    case True
    then show ?thesis using hp by (subst (1 2) raisesObjArray.simps) simp
  next
    case False
    have a: "raisesSchemaRecursive h m fs (arrayPath newPath i) (getIndex dv i)
        = raisesSchemaRecursive h m' fs (arrayPath newPath i) (getIndex dv i)"
      using 8(1)[OF False 8(3) 8(4) nc] .
    have b: "raisesObjArray h m fs newPath dv (Suc i) = raisesObjArray h m' fs newPath dv (Suc i)"
      using 8(2)[OF False 8(3) 8(4) 8(5)] .
    show ?thesis using a b hp by (subst (1 2) raisesObjArray.simps) simp
  qed
qed


subsection \<open>Duplicate keys\<close>

text \<open>
  C7: for every input multimap, \<^verbatim>\<open>parseURL\<close> returns what it returns on the multimap that
  keeps only the last occurrence of each key; with \<^verbatim>\<open>id=42\<close> then \<^verbatim>\<open>id=43\<close> and the schema
  \<^verbatim>\<open>{id: 'number'}\<close> the result is \<^verbatim>\<open>{id: 43}\<close>.
\<close>

theorem last_write_wins:
  "parseURL h (DParams paths) schema d = parseURL h (DParams (lastWins paths)) schema d
   \<and> parseURL h (DURL paths) schema d = parseURL h (DURL (lastWins paths)) schema d
   \<and> parseURL sampleHost (DParams [(''id'', ''42''), (''id'', ''43'')]) [(''id'', Prim PNumber)]
        (Leaf Undefined) = Inr (ObjV [(''id'', Leaf (Num 43))])
   \<and> lastWins [(''id'', ''42''), (''id'', ''43'')] = [(''id'', ''43'')]"
proof -
  have "parseSchemaRecursive h (new_Map paths) schema [] d
      = parseSchemaRecursive h (new_Map (lastWins paths)) schema [] d"
  proof (rule parse_agree(1)[where K = "{}"])
    show "Map_get (new_Map paths) q = Map_get (new_Map (lastWins paths)) q" for q
      by (simp add: Map_get_new_Map map_of_rev_lastWins)
    show "hasPaths (new_Map paths) p = hasPaths (new_Map (lastWins paths)) p" for p
      by (simp add: hasPaths_new_Map keys_lastWins)
    show "\<forall>k\<in>{}. \<not> consultedFields schema [] k" by simp
  qed
  moreover have "raisesSchemaRecursive h (new_Map paths) schema [] d
      = raisesSchemaRecursive h (new_Map (lastWins paths)) schema [] d"
  proof (rule raises_agree(1)[where K = "{}"])
    show "Map_get (new_Map paths) q = Map_get (new_Map (lastWins paths)) q" for q
      by (simp add: Map_get_new_Map map_of_rev_lastWins)
    show "hasPaths (new_Map paths) p = hasPaths (new_Map (lastWins paths)) p" for p
      by (simp add: hasPaths_new_Map keys_lastWins)
    show "\<forall>k\<in>{}. \<not> consultedFields schema [] k" by simp
  qed
  moreover have "parseURL sampleHost (DParams [(''id'', ''42''), (''id'', ''43'')])
      [(''id'', Prim PNumber)] (Leaf Undefined) = Inr (ObjV [(''id'', Leaf (Num 43))])"
    by code_simp
  ultimately show ?thesis by (simp add: parseURL_def getSearchParams_def)
qed

subsection \<open>Keys outside the schema\<close>

text \<open>
  C4: a key that no schema path resolves is to be ignored. The scan of an array of
  objects tests \<^verbatim>\<open>path.startsWith(arrayPath)\<close> on every key of the map, with nothing to end
  the index: under the schema \<^verbatim>\<open>{items: [{a: 'string'}]}\<close> the key \<^verbatim>\<open>items.0extra\<close>, which
  resolves to no schema path, begins with the text \<^verbatim>\<open>items.0\<close>, and the parsed array gains
  an element that the parse without the key does not have. The same test lets the key
  \<^verbatim>\<open>items.10.a\<close> stand for an element at index 1: with \<^verbatim>\<open>items.0.a\<close> and \<^verbatim>\<open>items.10.a\<close> alone
  the array has two elements.
\<close>

theorem array_prefix_key_changes_result:
  "\<not> isValidPath ''items.0extra'' (Obj [(''items'', Arr (Obj [(''a'', Prim PString)]))])
   \<and> \<not> resolves (Obj [(''items'', Arr (Obj [(''a'', Prim PString)]))])
          (splitOn CHR ''.'' ''items.0extra'')
   \<and> parseURL sampleHost (DParams [(''items.0extra'', ''x'')])
        [(''items'', Arr (Obj [(''a'', Prim PString)]))] (Leaf Undefined)
      = Inr (ObjV [(''items'', ArrV [ObjV [(''a'', Leaf Null)]])])
   \<and> parseURL sampleHost (DParams [])
        [(''items'', Arr (Obj [(''a'', Prim PString)]))] (Leaf Undefined)
      = Inr (ObjV [(''items'', ArrV [])])
   \<and> parseURL sampleHost (DParams [(''items.0.a'', ''u''), (''items.10.a'', ''v'')])
        [(''items'', Arr (Obj [(''a'', Prim PString)]))] (Leaf Undefined)
      = Inr (ObjV [(''items'', ArrV [ObjV [(''a'', Leaf (Str ''u''))], ObjV [(''a'', Leaf Null)]])])"
  by code_simp

text \<open>
  A key that is neither the path of a primitive leaf or of an element of an array of
  primitives (index in canonical decimal form) nor begins with the text \<^verbatim>\<open>path.i\<close> of an
  element of an array of objects is ignored, wherever it stands in the input.
\<close>

lemma unconsulted_key_ignored:
  assumes "\<not> consultedFields schema [] k"
  shows "parseURL h (DParams (paths1 @ (k, v) # paths2)) schema d
       = parseURL h (DParams (paths1 @ paths2)) schema d"
proof -
  have g: "Map_get (new_Map (paths1 @ (k, v) # paths2)) q = Map_get (new_Map (paths1 @ paths2)) q"
    if "q \<notin> {k}" for q
    using that by (auto simp: Map_get_new_Map map_add_def split: option.splits)
  have hp: "hasPaths (new_Map (paths1 @ (k, v) # paths2)) p = hasPaths (new_Map (paths1 @ paths2)) p"
    if "\<forall>k\<in>{k}. \<not> prefix p k" for p
    using that by (auto simp: hasPaths_new_Map)
  have nc: "\<forall>k\<in>{k}. \<not> consultedFields schema [] k" using assms by simp
  have "parseSchemaRecursive h (new_Map (paths1 @ (k, v) # paths2)) schema [] d
      = parseSchemaRecursive h (new_Map (paths1 @ paths2)) schema [] d"
    by (rule parse_agree(1)[where K = "{k}", OF g hp nc])
  moreover have "raisesSchemaRecursive h (new_Map (paths1 @ (k, v) # paths2)) schema [] d
      = raisesSchemaRecursive h (new_Map (paths1 @ paths2)) schema [] d"
    by (rule raises_agree(1)[where K = "{k}", OF g hp nc])
  ultimately show ?thesis by (simp add: parseURL_def getSearchParams_def)
qed

subsection \<open>Decimal numerals, continued\<close>

lemma digitValue_digitChar: "d < 10 \<Longrightarrow> digitValue (digitChar d) = d"
proof -
  assume "d < 10"
  then have "d \<in> {0, 1, 2, 3, 4, 5, 6, 7, 8, 9}" by auto
  then show ?thesis by (auto simp: digitValue_def digitChar_def)
qed

lemma readNat_snoc: "readNat (xs @ [c]) = 10 * readNat xs + digitValue c"
  by (simp add: readNat_def)

lemma readNat_showNat: "readNat (showNat n) = n"
proof (induction n rule: showNat.induct)
  case (1 n)
  show ?case
  proof (cases "n < 10")
    case True
    then show ?thesis
      by (subst showNat.simps) (simp add: readNat_def digitValue_digitChar)
  next
    case False
    with 1 have "readNat (showNat (n div 10)) = n div 10" by simp
    with False show ?thesis
      by (subst showNat.simps) (simp add: readNat_snoc digitValue_digitChar)
  qed
qed

lemma showNat_inj: "showNat a = showNat b \<Longrightarrow> a = b"
  by (metis readNat_showNat)

lemma showNat_prefix_le: "prefix (showNat a) (showNat b) \<Longrightarrow> a \<le> b"
proof (induction b rule: showNat.induct)
  case (1 b)
  show ?case
  proof (cases "b < 10")
    case True
    then have "showNat b = [digitChar b]" by (subst showNat.simps) simp
    with 1(2) have "showNat a = showNat b"
      using showNat_nonempty[of a] by (cases "showNat a") auto
    then show ?thesis using showNat_inj by auto
  next
    case False
    then have eq: "showNat b = showNat (b div 10) @ [digitChar (b mod 10)]"
      by (subst showNat.simps) simp
    from 1(2) have "showNat a = showNat b \<or> prefix (showNat a) (showNat (b div 10))"
      unfolding eq by auto
    then show ?thesis
    proof
      assume "showNat a = showNat b"
      then show ?thesis using showNat_inj by auto
    next
      assume "prefix (showNat a) (showNat (b div 10))"
      with 1(1) False have "a \<le> b div 10" by simp
      then show ?thesis by simp
    qed
  qed
qed

lemma isDigit_not_dot: "isDigit c \<Longrightarrow> c \<noteq> CHR ''.''"
  by (auto simp: isDigit_def)

lemma showNat_no_dot: "CHR ''.'' \<notin> set (showNat n)"
  using showNat_digits[of n] isDigit_not_dot by (auto simp: list_all_iff)

subsection \<open>Dots separate segments\<close>

lemma dot_split_eq:
  "c \<notin> set a \<Longrightarrow> c \<notin> set b \<Longrightarrow> a @ c # r = b @ c # r' \<Longrightarrow> a = b"
proof -
  assume a: "c \<notin> set a" and b: "c \<notin> set b" and e: "a @ c # r = b @ c # r'"
  have "takeWhile (\<lambda>x. x \<noteq> c) (a @ c # r) = a" using a by (induction a) auto
  moreover have "takeWhile (\<lambda>x. x \<noteq> c) (b @ c # r') = b" using b by (induction b) auto
  ultimately show ?thesis using e by simp
qed

lemma prefix_before_dot:
  "c \<notin> set a \<Longrightarrow> prefix a (b @ c # r) \<Longrightarrow> prefix a b"
proof -
  assume a: "c \<notin> set a" and p: "prefix a (b @ c # r)"
  from p have "prefix a b \<or> (\<exists>us. a = b @ us \<and> us \<noteq> [] \<and> prefix us (c # r))"
    by (auto simp: prefix_append)
  then show ?thesis
  proof
    assume "prefix a b" then show ?thesis .
  next
    assume "\<exists>us. a = b @ us \<and> us \<noteq> [] \<and> prefix us (c # r)"
    then obtain us where us: "a = b @ us" "us \<noteq> []" "prefix us (c # r)" by blast
    then have "c \<in> set us" by (cases us) (auto simp: prefix_Cons)
    with us(1) a show ?thesis by simp
  qed
qed

lemma inFamily_dot: "inFamily newPath q \<Longrightarrow> \<exists>r. q @ ''.'' = newPath @ ''.'' @ r"
  by (auto simp: inFamily_def prefix_def)

lemma family_disjoint:
  assumes "wfKey key" and "wfKey key'" and "key \<noteq> key'"
    and "inFamily (joinPath currentPath key) q"
  shows "\<not> inFamily (joinPath currentPath key') q"
proof
  assume "inFamily (joinPath currentPath key') q"
  then obtain r' where r': "q @ ''.'' = joinPath currentPath key' @ ''.'' @ r'"
    using inFamily_dot by blast
  from assms(4) obtain r where r: "q @ ''.'' = joinPath currentPath key @ ''.'' @ r"
    using inFamily_dot by blast
  from r r' have "key @ CHR ''.'' # r = key' @ CHR ''.'' # r'"
    by (auto simp: joinPath_def split: if_splits)
  then have "key = key'"
    using assms(1,2) by (auto simp: wfKey_def dest: dot_split_eq)
  with assms(3) show False by simp
qed

lemma inElem_prefix: "inElem newPath j q \<Longrightarrow> prefix (arrayPath newPath j) q"
  by (auto simp: inElem_def dest: append_prefixD)

lemma elem_prefix_le:
  assumes "inElem newPath i q" and "prefix (arrayPath newPath j) q"
  shows "j \<le> i"
proof -
  from assms(1) obtain z where q: "q = newPath @ ''.'' @ showNat i @ ''.'' @ z"
    by (auto simp: inElem_def arrayPath_def prefix_def)
  from assms(2) have "prefix (showNat j) (showNat i @ CHR ''.'' # z)"
    unfolding q by (simp add: arrayPath_def)
  then have "prefix (showNat j) (showNat i)"
    by (rule prefix_before_dot[OF showNat_no_dot])
  then show ?thesis by (rule showNat_prefix_le)
qed

lemma elem_disjoint: "inElem newPath i q \<Longrightarrow> inElem newPath j q \<Longrightarrow> i = j"
  using elem_prefix_le inElem_prefix by (metis le_antisym)

lemma arrayPath_inj: "arrayPath newPath i = arrayPath newPath j \<Longrightarrow> i = j"
  by (simp add: arrayPath_def showNat_inj)

lemma arrayPath_not_Nil: "arrayPath newPath i \<noteq> []"
  by (simp add: arrayPath_def)

lemma inFamily_arrayPath: "inFamily newPath (arrayPath newPath j)"
  by (simp add: inFamily_def arrayPath_def)

lemma prefix_arrayPath_inFamily: "prefix (arrayPath newPath j) k \<Longrightarrow> inFamily newPath k"
  by (auto simp: inFamily_def arrayPath_def prefix_def)

lemma inFields_inFamily: "newPath \<noteq> [] \<Longrightarrow> inFields fs newPath k \<Longrightarrow> inFamily newPath k"
  by (auto simp: inFields_def inFamily_def joinPath_def prefix_def)

lemma inFields_inElem: "inFields fs (arrayPath newPath j) k \<Longrightarrow> inElem newPath j k"
  using inFields_inFamily[OF arrayPath_not_Nil]
  by (fastforce simp: inElem_def inFamily_def inFields_def joinPath_def arrayPath_def prefix_def)

lemma joinPath_not_Nil: "wfKey key \<Longrightarrow> joinPath currentPath key \<noteq> []"
  by (simp add: joinPath_def wfKey_def)

subsection \<open>The keys a serialization emits\<close>

lemma serializePrimItems_keys:
  "k \<in> fst ` set (serializePrimItems h p newPath xs i) \<Longrightarrow> \<exists>j\<ge>i. k = arrayPath newPath j"
proof (induction xs arbitrary: i)
  case Nil
  then show ?case by simp
next
  case (Cons x xs)
  show ?case
  proof (cases "leafEntry h p (arrayPath newPath i) x = []")
    case True
    with Cons.prems have "k \<in> fst ` set (serializePrimItems h p newPath xs i)" by simp
    then show ?thesis by (rule Cons.IH)
  next
    case False
    with Cons.prems have "k = arrayPath newPath i
        \<or> k \<in> fst ` set (serializePrimItems h p newPath xs (Suc i))"
      by (auto simp: leafEntry_def split: jsval.splits option.splits)
    then show ?thesis
    proof
      assume "k = arrayPath newPath i"
      then show ?thesis by auto
    next
      assume "k \<in> fst ` set (serializePrimItems h p newPath xs (Suc i))"
      then obtain j where "Suc i \<le> j" "k = arrayPath newPath j"
        using Cons.IH by blast
      then show ?thesis by (intro exI[of _ j]) simp
    qed
  qed
qed

lemma serialize_keys:
  "wfFields fs \<Longrightarrow> k \<in> fst ` set (serializeFields h fs currentPath v) \<Longrightarrow> inFields fs currentPath k"
  "wfSchema schemaType \<Longrightarrow> newPath \<noteq> [] \<Longrightarrow> k \<in> fst ` set (serializeField h schemaType newPath v') \<Longrightarrow>
     inFamily newPath k"
  "wfFields fs' \<Longrightarrow> k \<in> fst ` set (serializeObjItems h fs' newPath' xs i) \<Longrightarrow>
     \<exists>j. i \<le> j \<and> inElem newPath' j k"
proof (induction h fs currentPath v and h schemaType newPath v' and h fs' newPath' xs i
    rule: serializeFields_serializeField_serializeObjItems.induct)
  case (1 h currentPath v)
  then show ?case by simp
next
  case (2 h key schemaType rest currentPath v)
  from 2(3) have wf: "wfKey key" "wfSchema schemaType" "wfFields rest" by simp_all
  have np: "joinPath currentPath key \<noteq> []" by (rule joinPath_not_Nil[OF wf(1)])
  from 2(4) have "k \<in> fst ` set (serializeField h schemaType (joinPath currentPath key) (getProp v key))
      \<or> k \<in> fst ` set (serializeFields h rest currentPath v)"
    by auto
  then show ?case
  proof
    assume "k \<in> fst ` set (serializeField h schemaType (joinPath currentPath key) (getProp v key))"
    then have "inFamily (joinPath currentPath key) k" by (rule 2(1)[OF wf(2) np])
    then show ?thesis by (auto simp: inFields_def)
  next
    assume "k \<in> fst ` set (serializeFields h rest currentPath v)"
    then have "inFields rest currentPath k" by (rule 2(2)[OF wf(3)])
    then show ?thesis by (auto simp: inFields_def)
  qed
next
  case (3 h p newPath v)
  then show ?case
    by (auto simp: leafEntry_def inFamily_def split: jsval.splits option.splits)
next
  case (4 h p newPath v)
  then have "k \<in> fst ` set (serializePrimItems h p newPath (items v) 0)" by simp
  then obtain j where "k = arrayPath newPath j" using serializePrimItems_keys by blast
  then show ?case by (simp add: inFamily_arrayPath)
next
  case (5 h fs newPath v)
  from 5(2) have wf: "wfFields fs" by simp
  from 5(4) have "k \<in> fst ` set (serializeObjItems h fs newPath (items v) 0)" by simp
  then obtain j where "inElem newPath j k" using 5(1)[OF wf] by blast
  then have "prefix (arrayPath newPath j) k" by (rule inElem_prefix)
  then show ?case by (rule prefix_arrayPath_inFamily)
next
  case (6 h t newPath v)
  have wf: "wfFields (entries (Arr t))" using 6(2) by (simp add: wfKey_def)
  from 6(4) have "k \<in> fst ` set (serializeObjItems h (entries (Arr t)) newPath (items v) 0)" by simp
  then obtain j where "inElem newPath j k" using 6(1)[OF wf] by blast
  then have "prefix (arrayPath newPath j) k" by (rule inElem_prefix)
  then show ?case by (rule prefix_arrayPath_inFamily)
next
  case (7 h fs newPath v)
  from 7(2) have wf: "wfFields fs" by simp
  from 7(4) have "k \<in> fst ` set (serializeFields h fs newPath v)" by simp
  then have "inFields fs newPath k" by (rule 7(1)[OF wf])
  with 7(3) show ?case by (rule inFields_inFamily)
next
  case (8 h fs newPath i)
  then show ?case by simp
next
  case (9 h fs newPath x xs i)
  note ihE = 9(1) and ihSkip = 9(2) and ihNext = 9(4) and wf = 9(5) and k = 9(6)
  show ?case
  proof (cases "serializeFields h fs (arrayPath newPath i) x = []")
    case True
    with k have "k \<in> fst ` set (serializeObjItems h fs newPath xs i)" by simp
    then show ?thesis by (rule ihSkip[OF True wf])
  next
    case False
    with k have "k \<in> fst ` set (serializeFields h fs (arrayPath newPath i) x)
        \<or> k \<in> fst ` set (serializeObjItems h fs newPath xs (Suc i))"
      by auto
    then show ?thesis
    proof
      assume "k \<in> fst ` set (serializeFields h fs (arrayPath newPath i) x)"
      then have "inFields fs (arrayPath newPath i) k" by (rule ihE[OF wf])
      then have "inElem newPath i k" by (rule inFields_inElem)
      then show ?thesis by blast
    next
      assume "k \<in> fst ` set (serializeObjItems h fs newPath xs (Suc i))"
      then obtain j where "Suc i \<le> j" "inElem newPath j k" using ihNext[OF False wf] by blast
      then show ?thesis by (intro exI[of _ j]) simp
    qed
  qed
qed

text \<open>
  The walks over the fields of an object read the object through the fields' keys only.
\<close>

lemma serializeFields_cong:
  "(\<And>key. key \<in> fst ` set fs \<Longrightarrow> getProp v key = getProp v' key) \<Longrightarrow>
     serializeFields h fs currentPath v = serializeFields h fs currentPath v'"
  by (induction fs) auto

lemma nonNullFields_cong:
  "(\<And>key. key \<in> fst ` set fs \<Longrightarrow> getProp v key = getProp v' key) \<Longrightarrow>
     nonNullFields fs v = nonNullFields fs v'"
  by (induction fs) auto

lemma restrictFields_cong:
  "(\<And>key. key \<in> fst ` set fs \<Longrightarrow> getProp v key = getProp v' key) \<Longrightarrow>
     restrictFields fs v = restrictFields fs v'"
  by (induction fs) auto

subsection \<open>Agreement of a map with a serialization on a region\<close>

lemma map_of_rev_None: "map_of (rev S) q = None \<longleftrightarrow> q \<notin> fst ` set S"
  by (simp add: map_of_eq_None_iff)

lemma agreesOn_left:
  assumes "agreesOn R m' (A @ B)" and "\<And>q. R' q \<Longrightarrow> R q"
    and "\<And>k. k \<in> fst ` set B \<Longrightarrow> \<not> R' k"
  shows "agreesOn R' m' A"
  unfolding agreesOn_def
proof (intro conjI allI impI ballI)
  fix q assume q: "R' q"
  then have "R q" by (rule assms(2))
  with assms(1) have "Map_get m' q = map_of (rev (A @ B)) q" unfolding agreesOn_def by blast
  moreover have "q \<notin> fst ` set B" using assms(3)[of q] q by blast
  then have "map_of (rev B) q = None" by (simp add: map_of_rev_None)
  ultimately show "Map_get m' q = map_of (rev A) q" by (simp add: map_add_def)
next
  fix k assume km: "k \<in> set (Map_keys m')" and k: "R' k"
  then have "R k" using assms(2) by blast
  with assms(1) km have "k \<in> fst ` set (A @ B)" unfolding agreesOn_def by blast
  moreover have "k \<notin> fst ` set B" using assms(3)[of k] k by blast
  ultimately show "k \<in> fst ` set A" by auto
qed

lemma agreesOn_right:
  assumes "agreesOn R m' (A @ B)" and "\<And>q. R' q \<Longrightarrow> R q"
    and "\<And>k. k \<in> fst ` set A \<Longrightarrow> \<not> R' k"
  shows "agreesOn R' m' B"
  unfolding agreesOn_def
proof (intro conjI allI impI ballI)
  fix q assume q: "R' q"
  then have "R q" by (rule assms(2))
  with assms(1) have "Map_get m' q = map_of (rev (A @ B)) q" unfolding agreesOn_def by blast
  moreover have "q \<notin> fst ` set A" using assms(3)[of q] q by blast
  then have "map_of (rev A) q = None" by (simp add: map_of_rev_None)
  ultimately show "Map_get m' q = map_of (rev B) q"
    by (simp add: map_add_def split: option.splits)
next
  fix k assume km: "k \<in> set (Map_keys m')" and k: "R' k"
  then have "R k" using assms(2) by blast
  with assms(1) km have "k \<in> fst ` set (A @ B)" unfolding agreesOn_def by blast
  moreover have "k \<notin> fst ` set A" using assms(3)[of k] k by blast
  ultimately show "k \<in> fst ` set B" by auto
qed

lemma agreesOn_mono: "agreesOn R m' S \<Longrightarrow> (\<And>q. R' q \<Longrightarrow> R q) \<Longrightarrow> agreesOn R' m' S"
  using agreesOn_left[of R m' S "[]" R'] by simp

lemma agreesOn_new_Map: "agreesOn R (new_Map S) S"
proof -
  have "set (Map_keys (new_Map S)) = fst ` set S"
    by (simp add: Map_keys_def new_Map_def keys_foldl_Map_set)
  then show ?thesis by (simp add: agreesOn_def Map_get_new_Map)
qed

lemma Map_get_key: "Map_get m q = Some s \<Longrightarrow> q \<in> set (Map_keys m)"
  by (auto simp: Map_get_def Map_keys_def dest: map_of_SomeD intro: rev_image_eqI)

subsection \<open>Leaves\<close>

lemma lower_true: "map lowerChar ''true'' = ''true''"
  and lower_false: "map lowerChar ''false'' = ''false''"
  by (simp_all add: lowerChar_def)

lemma coerceRaw_boolean_literals:
  "coerceRaw h PBoolean ''true'' = Bool True"
  "coerceRaw h PBoolean ''false'' = Bool False"
  by (simp_all add: lowerChar_def)

lemma coerceRaw_boolean_range:
  "coerceRaw h PBoolean s = Bool True \<or> coerceRaw h PBoolean s = Bool False
     \<or> coerceRaw h PBoolean s = Null"
  by simp

lemma leaf_round_trip:
  assumes "hostRoundTrips h"
  shows "case stringifyPrimitive h p (coercePrimitive h p raw (Leaf Undefined)) of
           None \<Rightarrow> coercePrimitive h p raw (Leaf Undefined) = Null
         | Some s \<Rightarrow> s \<noteq> [] \<and> coerceRaw h p s = coercePrimitive h p raw (Leaf Undefined)"
proof (cases raw)
  case None
  then show ?thesis by (cases p) simp_all
next
  case (Some s0)
  show ?thesis
  proof (cases p)
    case PString
    with Some show ?thesis by simp
  next
    case PNumber
    show ?thesis
    proof (cases "s0 = [] \<or> s0 = ''null'' \<or> parseNumber h s0 = None")
      case True
      with Some PNumber show ?thesis by auto
    next
      case False
      then obtain n where n: "parseNumber h s0 = Some n" by auto
      with assms have "numberToString h n \<noteq> []" "numberToString h n \<noteq> ''null''"
        "parseNumber h (numberToString h n) = Some n"
        unfolding hostRoundTrips_def by blast+
      with False n Some PNumber show ?thesis by simp
    qed
  next
    case PDate
    show ?thesis
    proof (cases "s0 = [] \<or> s0 = ''null'' \<or> parseDate h s0 = None")
      case True
      with Some PDate show ?thesis by auto
    next
      case False
      then obtain d where d: "parseDate h s0 = Some d" by auto
      with assms have "dateToISOString h d \<noteq> []" "dateToISOString h d \<noteq> ''null''"
        "parseDate h (dateToISOString h d) = Some d"
        unfolding hostRoundTrips_def by blast+
      with False d Some PDate show ?thesis by simp
    qed
  next
    case PBoolean
    have v: "coercePrimitive h PBoolean raw (Leaf Undefined) = coerceRaw h PBoolean s0"
      using Some by simp
    show ?thesis
      unfolding PBoolean v
      using coerceRaw_boolean_range[of h s0]
      by (auto simp del: coerceRaw.simps simp add: coerceRaw_boolean_literals)
  next
    case (PEnum inner)
    with Some show ?thesis by simp
  qed
qed

lemma stringifyPrimitive_Null: "stringifyPrimitive h p Null = None"
  by (cases p) simp_all

text \<open>
  A parsed leaf emits a key exactly when it is not \<^verbatim>\<open>null\<close>, and the value it emits is not
  empty and parses back to the leaf.
\<close>

lemma leafEntry_parsed:
  assumes "hostRoundTrips h"
  shows "leafEntry h p path (Leaf (coercePrimitive h p raw (Leaf Undefined))) = [] \<longleftrightarrow>
           coercePrimitive h p raw (Leaf Undefined) = Null"
    and "coercePrimitive h p raw (Leaf Undefined) \<noteq> Null \<Longrightarrow>
           \<exists>s. leafEntry h p path (Leaf (coercePrimitive h p raw (Leaf Undefined))) = [(path, s)]
              \<and> s \<noteq> [] \<and> coerceRaw h p s = coercePrimitive h p raw (Leaf Undefined)"
proof -
  let ?v = "coercePrimitive h p raw (Leaf Undefined)"
  note rt = leaf_round_trip[OF assms, of p raw]
  show "leafEntry h p path (Leaf ?v) = [] \<longleftrightarrow> ?v = Null"
  proof (cases "stringifyPrimitive h p ?v")
    case None
    with rt show ?thesis by (simp add: leafEntry_def)
  next
    case (Some s)
    then have "?v \<noteq> Null" using stringifyPrimitive_Null[of h p] by auto
    with Some show ?thesis by (simp add: leafEntry_def)
  qed
  show "\<exists>s. leafEntry h p path (Leaf ?v) = [(path, s)] \<and> s \<noteq> [] \<and> coerceRaw h p s = ?v"
    if "?v \<noteq> Null"
  proof (cases "stringifyPrimitive h p ?v")
    case None
    with rt that show ?thesis by simp
  next
    case (Some s)
    with rt show ?thesis by (simp add: leafEntry_def)
  qed
qed

subsection \<open>Re-parsing a serialization\<close>

text \<open>The elements of a parsed array of primitives are coerced values.\<close>

lemma parsePrimArray_elements:
  "x \<in> set (parsePrimArray h m p newPath (Leaf Undefined) i) \<Longrightarrow>
     \<exists>raw. x = Leaf (coercePrimitive h p raw (Leaf Undefined))"
proof (induction h m p newPath "Leaf Undefined :: ('a, 'b) jsval" i rule: parsePrimArray.induct)
  case (1 h m p newPath i)
  show ?case
  proof (cases "\<not> truthyRaw (Map_get m (arrayPath newPath i))
      \<and> \<not> truthy h (getIndex (Leaf Undefined :: ('a, 'b) jsval) i)")
    case True
    with 1(2) show ?thesis by (subst (asm) parsePrimArray.simps) simp
  next
    case False
    with 1(2) have "x = Leaf (coercePrimitive h p (Map_get m (arrayPath newPath i)) (Leaf Undefined))
        \<or> x \<in> set (parsePrimArray h m p newPath (Leaf Undefined) (Suc i))"
      by (subst (asm) parsePrimArray.simps) auto
    then show ?thesis using 1(1)[OF False] by blast
  qed
qed

text \<open>
  An array of coerced values emits a key exactly when one of its elements is not \<^verbatim>\<open>null\<close>.
\<close>

lemma serializePrimItems_nonNull:
  assumes "hostRoundTrips h"
  shows "\<forall>x\<in>set xs. \<exists>raw. x = Leaf (coercePrimitive h p raw (Leaf Undefined)) \<Longrightarrow>
     serializePrimItems h p newPath xs i \<noteq> [] \<longleftrightarrow> list_ex (\<lambda>x. x \<noteq> Leaf Null) xs"
proof (induction xs arbitrary: i)
  case Nil
  show ?case by simp
next
  case (Cons x xs)
  from Cons.prems obtain raw where x: "x = Leaf (coercePrimitive h p raw (Leaf Undefined))" by auto
  from Cons.prems have rest: "\<forall>x\<in>set xs. \<exists>raw. x = Leaf (coercePrimitive h p raw (Leaf Undefined))"
    by simp
  show ?case
  proof (cases "coercePrimitive h p raw (Leaf Undefined) = Null")
    case True
    then have "leafEntry h p (arrayPath newPath i) x = []"
      using leafEntry_parsed(1)[OF assms, of p "arrayPath newPath i" raw] x by simp
    then show ?thesis using Cons.IH[OF rest, of i] True x by simp
  next
    case False
    then have "leafEntry h p (arrayPath newPath i) x \<noteq> []"
      using leafEntry_parsed(1)[OF assms, of p "arrayPath newPath i" raw] x by simp
    then show ?thesis using False x by simp
  qed
qed

text \<open>
  Re-parsing an array of coerced values from a map that binds the keys of the array as
  its serialization does: the elements that are not \<^verbatim>\<open>null\<close>, in their order.
\<close>

lemma parsePrimArray_round_trip:
  assumes "hostRoundTrips h"
  shows "\<forall>x\<in>set xs. \<exists>raw. x = Leaf (coercePrimitive h p raw (Leaf Undefined)) \<Longrightarrow>
     (\<And>j. i \<le> j \<Longrightarrow> Map_get m' (arrayPath newPath j) =
        map_of (rev (serializePrimItems h p newPath xs i)) (arrayPath newPath j)) \<Longrightarrow>
     parsePrimArray h m' p newPath (Leaf Undefined) i = filter (\<lambda>x. x \<noteq> Leaf Null) xs"
proof (induction xs arbitrary: i)
  case Nil
  have "Map_get m' (arrayPath newPath i) = None" using Nil(2)[of i] by simp
  then show ?case by (subst parsePrimArray.simps) simp
next
  case (Cons x xs)
  note agree = Cons.prems(2)
  from Cons.prems(1) obtain raw where x: "x = Leaf (coercePrimitive h p raw (Leaf Undefined))"
    by auto
  from Cons.prems(1) have rest: "\<forall>x\<in>set xs. \<exists>raw. x = Leaf (coercePrimitive h p raw (Leaf Undefined))"
    by simp
  let ?v = "coercePrimitive h p raw (Leaf Undefined)"
  show ?case
  proof (cases "?v = Null")
    case True
    then have e: "leafEntry h p (arrayPath newPath i) x = []"
      using leafEntry_parsed(1)[OF assms, of p "arrayPath newPath i" raw] x by simp
    have "parsePrimArray h m' p newPath (Leaf Undefined) i = filter (\<lambda>x. x \<noteq> Leaf Null) xs"
    proof (rule Cons.IH[OF rest])
      show "Map_get m' (arrayPath newPath j) =
          map_of (rev (serializePrimItems h p newPath xs i)) (arrayPath newPath j)" if "i \<le> j" for j
        using agree[OF that] e by simp
    qed
    then show ?thesis using True x by simp
  next
    case False
    from leafEntry_parsed(2)[OF assms False, of "arrayPath newPath i"] obtain s where
      le: "leafEntry h p (arrayPath newPath i) x = [(arrayPath newPath i, s)]"
      and sne: "s \<noteq> []" and rd: "coerceRaw h p s = ?v"
      using x by auto
    let ?S' = "serializePrimItems h p newPath xs (Suc i)"
    have ser: "serializePrimItems h p newPath (x # xs) i = (arrayPath newPath i, s) # ?S'"
      using le by simp
    have here: "arrayPath newPath i \<notin> fst ` set ?S'"
    proof
      assume "arrayPath newPath i \<in> fst ` set ?S'"
      then obtain j where "Suc i \<le> j" "arrayPath newPath i = arrayPath newPath j"
        using serializePrimItems_keys by blast
      then show False using arrayPath_inj by fastforce
    qed
    have noneRest: "map_of (rev ?S') (arrayPath newPath i) = None"
      using here by (simp add: map_of_rev_None)
    have g: "Map_get m' (arrayPath newPath i) = Some s"
    proof -
      have "Map_get m' (arrayPath newPath i) =
          map_of (rev (serializePrimItems h p newPath (x # xs) i)) (arrayPath newPath i)"
        using agree[of i] by simp
      also have "\<dots> = Some s"
        using noneRest unfolding ser by (simp add: map_add_def)
      finally show ?thesis .
    qed
    have later: "Map_get m' (arrayPath newPath j) = map_of (rev ?S') (arrayPath newPath j)"
      if "Suc i \<le> j" for j
    proof -
      from that have ne: "arrayPath newPath j \<noteq> arrayPath newPath i"
        using arrayPath_inj by fastforce
      have "Map_get m' (arrayPath newPath j) =
          map_of (rev (serializePrimItems h p newPath (x # xs) i)) (arrayPath newPath j)"
        using agree[of j] that by simp
      also have "\<dots> = map_of (rev ?S') (arrayPath newPath j)"
        using ne unfolding ser by (simp add: map_add_def split: option.splits)
      finally show ?thesis .
    qed
    have ih: "parsePrimArray h m' p newPath (Leaf Undefined) (Suc i) = filter (\<lambda>x. x \<noteq> Leaf Null) xs"
      using Cons.IH[OF rest later] .
    have "parsePrimArray h m' p newPath (Leaf Undefined) i =
        Leaf (coercePrimitive h p (Some s) (Leaf Undefined))
          # parsePrimArray h m' p newPath (Leaf Undefined) (Suc i)"
      using g sne by (subst parsePrimArray.simps) simp
    also have "\<dots> = x # filter (\<lambda>x. x \<noteq> Leaf Null) xs" using rd ih x by simp
    finally show ?thesis using False x by simp
  qed
qed

text \<open>
  A parsed tree emits a key exactly when it holds a leaf that is not \<^verbatim>\<open>null\<close>, whatever the
  path and the index the keys are written under.
\<close>

lemma serialize_nonNull:
  "hostRoundTrips h \<Longrightarrow> d = Leaf Undefined \<Longrightarrow> wfFields fs \<Longrightarrow>
     serializeFields h fs currentPath' (ObjV (parseSchemaRecursive h m fs currentPath d)) \<noteq> []
       \<longleftrightarrow> nonNullFields fs (ObjV (parseSchemaRecursive h m fs currentPath d))"
  "hostRoundTrips h \<Longrightarrow> dv = Leaf Undefined \<Longrightarrow> wfSchema schemaType \<Longrightarrow>
     serializeField h schemaType newPath' (parseField h m schemaType newPath dv) \<noteq> []
       \<longleftrightarrow> nonNullField schemaType (parseField h m schemaType newPath dv)"
  "hostRoundTrips h \<Longrightarrow> dv' = Leaf Undefined \<Longrightarrow> wfFields fs' \<Longrightarrow>
     serializeObjItems h fs' newPath'' (parseObjArray h m fs' newPathA dv' i) i' \<noteq> []
       \<longleftrightarrow> nonNullItems fs' (parseObjArray h m fs' newPathA dv' i)"
proof (induction h m fs currentPath d and h m schemaType newPath dv and h m fs' newPathA dv' i
    arbitrary: currentPath' and newPath' and newPath'' i'
    rule: parseSchemaRecursive_parseField_parseObjArray.induct)
  case (1 h m currentPath defaultSchema)
  show ?case by simp
next
  case (2 h m key schemaType rest currentPath defaultSchema)
  note rt = 2(3) and d = 2(4) and wf = 2(5)
  let ?np = "joinPath currentPath key"
  let ?X = "parseField h m schemaType ?np (getProp defaultSchema key)"
  let ?Trest = "parseSchemaRecursive h m rest currentPath defaultSchema"
  let ?T = "(key, ?X) # ?Trest"
  from wf have nin: "key \<notin> fst ` set rest" and wfs: "wfSchema schemaType" and wfr: "wfFields rest"
    by simp_all
  have dk: "getProp defaultSchema key = Leaf Undefined" using d by simp
  have same: "getProp (ObjV ?T) key' = getProp (ObjV ?Trest) key'" if "key' \<in> fst ` set rest" for key'
    using that nin by auto
  have serRest: "serializeFields h rest currentPath' (ObjV ?T)
      = serializeFields h rest currentPath' (ObjV ?Trest)"
    by (rule serializeFields_cong) (rule same)
  have nnRest: "nonNullFields rest (ObjV ?T) = nonNullFields rest (ObjV ?Trest)"
    by (rule nonNullFields_cong) (rule same)
  have a: "serializeField h schemaType (joinPath currentPath' key) ?X \<noteq> [] \<longleftrightarrow> nonNullField schemaType ?X"
    using 2(1)[OF rt dk wfs] .
  have b: "serializeFields h rest currentPath' (ObjV ?Trest) \<noteq> [] \<longleftrightarrow> nonNullFields rest (ObjV ?Trest)"
    using 2(2)[OF rt d wfr] .
  show ?case using a b serRest nnRest by simp
next
  case (3 h m p newPath dv)
  then show ?case using leafEntry_parsed(1)[of h p newPath' "Map_get m newPath"] by simp
next
  case (4 h m p newPath dv)
  note rt = 4(1) and dv = 4(2)
  have el: "\<forall>x\<in>set (parsePrimArray h m p newPath (Leaf Undefined) 0).
      \<exists>raw. x = Leaf (coercePrimitive h p raw (Leaf Undefined))"
    using parsePrimArray_elements by blast
  show ?case
    using serializePrimItems_nonNull[OF rt el, of newPath' 0] dv by (simp add: items_def)
next
  case (5 h m fs newPath dv)
  have wff: "wfFields fs" using 5(4) by simp
  show ?case using 5(1)[OF 5(2) 5(3) wff, of newPath' 0] by (simp add: items_def)
next
  case (6 h m t newPath dv)
  have wff: "wfFields (entries (Arr t))" using 6(4) by (simp add: wfKey_def)
  show ?case using 6(1)[OF 6(2) 6(3) wff, of newPath' 0] by (simp add: items_def)
next
  case (7 h m fs newPath dv)
  have wff: "wfFields fs" using 7(4) by simp
  show ?case using 7(1)[OF 7(2) 7(3) wff, of newPath'] by simp
next
  case (8 h m fs newPath dv i)
  note rt = 8(3) and dv = 8(4) and wf = 8(5)
  have di: "getIndex dv i = Leaf Undefined" using dv by simp
  show ?case
  proof (cases "hasPaths m (arrayPath newPath i)")
    case False
    then have e: "parseObjArray h m fs newPath dv i = []"
      using dv by (subst parseObjArray.simps) simp
    show ?thesis unfolding e by simp
  next
    case True
    let ?E = "parseSchemaRecursive h m fs (arrayPath newPath i) (getIndex dv i)"
    let ?XS = "parseObjArray h m fs newPath dv (Suc i)"
    have c: "\<not> (\<not> truthy h (getIndex dv i) \<and> \<not> hasPaths m (arrayPath newPath i))"
      using True by simp
    have e: "parseObjArray h m fs newPath dv i = ObjV ?E # ?XS"
      using True by (subst parseObjArray.simps) simp
    have a: "serializeFields h fs (arrayPath newPath'' i') (ObjV ?E) \<noteq> [] \<longleftrightarrow> nonNullFields fs (ObjV ?E)"
      using 8(1)[OF c rt di wf] .
    have b: "serializeObjItems h fs newPath'' ?XS j \<noteq> [] \<longleftrightarrow> nonNullItems fs ?XS" for j
      using 8(2)[OF c rt dv wf] .
    show ?thesis unfolding e using a b[of i'] b[of "Suc i'"] by auto
  qed
qed

text \<open>
  The round trip along the recursion of the parser: a map that agrees, on the keys of the
  fields, with the serialization of the parsed tree (written under any path) parses, under
  that path, to the tree restricted to its non-null leaves, and raises nothing if the
  first parse raised nothing.
\<close>

lemma round_trip_rec:
  "hostRoundTrips h \<Longrightarrow> d = Leaf Undefined \<Longrightarrow> wfFields fs \<Longrightarrow>
   \<not> raisesSchemaRecursive h m fs currentPath d \<Longrightarrow>
   agreesOn (inFields fs currentPath') m'
     (serializeFields h fs currentPath' (ObjV (parseSchemaRecursive h m fs currentPath d))) \<Longrightarrow>
   parseSchemaRecursive h m' fs currentPath' d
       = restrictFields fs (ObjV (parseSchemaRecursive h m fs currentPath d))
     \<and> \<not> raisesSchemaRecursive h m' fs currentPath' d"
  "hostRoundTrips h \<Longrightarrow> dv = Leaf Undefined \<Longrightarrow> wfSchema schemaType \<Longrightarrow> newPath' \<noteq> [] \<Longrightarrow>
   \<not> raisesField h m schemaType newPath dv \<Longrightarrow>
   agreesOn (inFamily newPath') m'
     (serializeField h schemaType newPath' (parseField h m schemaType newPath dv)) \<Longrightarrow>
   parseField h m' schemaType newPath' dv = restrictField schemaType (parseField h m schemaType newPath dv)
     \<and> \<not> raisesField h m' schemaType newPath' dv"
  "hostRoundTrips h \<Longrightarrow> dv' = Leaf Undefined \<Longrightarrow> wfFields fs' \<Longrightarrow>
   \<not> raisesObjArray h m fs' newPathA dv' i \<Longrightarrow>
   agreesOn (\<lambda>k. \<exists>j\<ge>i'. prefix (arrayPath newPath'' j) k) m'
     (serializeObjItems h fs' newPath'' (parseObjArray h m fs' newPathA dv' i) i') \<Longrightarrow>
   parseObjArray h m' fs' newPath'' dv' i' = restrictItems fs' (parseObjArray h m fs' newPathA dv' i)
     \<and> \<not> raisesObjArray h m' fs' newPath'' dv' i'"
proof (induction h m fs currentPath d and h m schemaType newPath dv and h m fs' newPathA dv' i
    arbitrary: m' currentPath' and m' newPath' and m' newPath'' i'
    rule: parseSchemaRecursive_parseField_parseObjArray.induct)
  case (1 h m currentPath defaultSchema)
  show ?case by simp
next
  case (2 h m key schemaType rest currentPath defaultSchema)
  note rt = 2(3) and d = 2(4) and wf = 2(5) and nr = 2(6) and agree = 2(7)
  let ?np = "joinPath currentPath key"
  let ?np' = "joinPath currentPath' key"
  let ?X = "parseField h m schemaType ?np (getProp defaultSchema key)"
  let ?Trest = "parseSchemaRecursive h m rest currentPath defaultSchema"
  let ?T = "(key, ?X) # ?Trest"
  from wf have wfk: "wfKey key" and nin: "key \<notin> fst ` set rest"
    and wfs: "wfSchema schemaType" and wfr: "wfFields rest" by simp_all
  have np: "?np' \<noteq> []" by (rule joinPath_not_Nil[OF wfk])
  have dk: "getProp defaultSchema key = Leaf Undefined" using d by simp
  from nr have nrF: "\<not> raisesField h m schemaType ?np (getProp defaultSchema key)"
    and nrR: "\<not> raisesSchemaRecursive h m rest currentPath defaultSchema"
    by simp_all
  have same: "getProp (ObjV ?T) key' = getProp (ObjV ?Trest) key'" if "key' \<in> fst ` set rest" for key'
    using that nin by auto
  have serRest: "serializeFields h rest currentPath' (ObjV ?T)
      = serializeFields h rest currentPath' (ObjV ?Trest)"
    by (rule serializeFields_cong) (rule same)
  have resRest: "restrictFields rest (ObjV ?T) = restrictFields rest (ObjV ?Trest)"
    by (rule restrictFields_cong) (rule same)
  let ?SF = "serializeField h schemaType ?np' ?X"
  let ?SR = "serializeFields h rest currentPath' (ObjV ?Trest)"
  have ser: "serializeFields h ((key, schemaType) # rest) currentPath' (ObjV ?T) = ?SF @ ?SR"
    using serRest by simp
  from agree have ag: "agreesOn (inFields ((key, schemaType) # rest) currentPath') m' (?SF @ ?SR)"
    using ser by simp
  have restFam: "\<not> inFamily ?np' k" if "inFields rest currentPath' k" for k
  proof -
    from that obtain key' where k': "key' \<in> fst ` set rest" "inFamily (joinPath currentPath' key') k"
      by (auto simp: inFields_def)
    have ne: "key' \<noteq> key" using k'(1) nin by auto
    have wfk': "wfKey key'" using k'(1) wfr
    proof (induction rest)
      case Nil
      then show ?case by simp
    next
      case (Cons a rest)
      then show ?case by (cases a) auto
    qed
    show ?thesis using family_disjoint[OF wfk' wfk ne k'(2)] .
  qed
  have agF: "agreesOn (inFamily ?np') m' ?SF"
  proof (rule agreesOn_left[OF ag])
    show "inFields ((key, schemaType) # rest) currentPath' q" if "inFamily ?np' q" for q
      using that by (auto simp: inFields_def)
    show "\<not> inFamily ?np' k" if "k \<in> fst ` set ?SR" for k
      using restFam serialize_keys(1)[OF wfr that] by blast
  qed
  have agR: "agreesOn (inFields rest currentPath') m' ?SR"
  proof (rule agreesOn_right[OF ag])
    show "inFields ((key, schemaType) # rest) currentPath' q" if "inFields rest currentPath' q" for q
      using that by (auto simp: inFields_def)
    show "\<not> inFields rest currentPath' k" if "k \<in> fst ` set ?SF" for k
      using restFam serialize_keys(2)[OF wfs np that] by blast
  qed
  have a: "parseField h m' schemaType ?np' (getProp defaultSchema key) = restrictField schemaType ?X
      \<and> \<not> raisesField h m' schemaType ?np' (getProp defaultSchema key)"
    using 2(1)[OF rt dk wfs np nrF agF] .
  have b: "parseSchemaRecursive h m' rest currentPath' defaultSchema = restrictFields rest (ObjV ?Trest)
      \<and> \<not> raisesSchemaRecursive h m' rest currentPath' defaultSchema"
    using 2(2)[OF rt d wfr nrR agR] .
  show ?case using a b resRest by simp
next
  case (3 h m p newPath dv)
  note rt = 3(1) and dv = 3(2) and agree = 3(6)
  let ?v = "coercePrimitive h p (Map_get m newPath) (Leaf Undefined)"
  have g: "Map_get m' newPath' = map_of (rev (leafEntry h p newPath' (Leaf ?v))) newPath'"
    using agree dv by (simp add: agreesOn_def inFamily_def)
  have "coercePrimitive h p (Map_get m' newPath') (Leaf Undefined) = ?v"
  proof (cases "?v = Null")
    case True
    then have "leafEntry h p newPath' (Leaf ?v) = []"
      using leafEntry_parsed(1)[OF rt, of p newPath' "Map_get m newPath"] by simp
    then have "Map_get m' newPath' = None" using g by simp
    then show ?thesis using True by simp
  next
    case False
    from leafEntry_parsed(2)[OF rt False, of newPath'] obtain s where
      "leafEntry h p newPath' (Leaf ?v) = [(newPath', s)]" and "coerceRaw h p s = ?v"
      by blast
    then show ?thesis using g by simp
  qed
  then show ?case using dv by (simp add: isPrimitiveType_def)
next
  case (4 h m p newPath dv)
  note rt = 4(1) and dv = 4(2) and agree = 4(6)
  have el: "\<forall>x\<in>set (parsePrimArray h m p newPath (Leaf Undefined) 0).
      \<exists>raw. x = Leaf (coercePrimitive h p raw (Leaf Undefined))"
    using parsePrimArray_elements by blast
  have "parsePrimArray h m' p newPath' (Leaf Undefined) 0
      = filter (\<lambda>x. x \<noteq> Leaf Null) (parsePrimArray h m p newPath (Leaf Undefined) 0)"
  proof (rule parsePrimArray_round_trip[OF rt el])
    show "Map_get m' (arrayPath newPath' j) =
        map_of (rev (serializePrimItems h p newPath' (parsePrimArray h m p newPath (Leaf Undefined) 0) 0))
          (arrayPath newPath' j)" for j
      using agree dv inFamily_arrayPath[of newPath' j] by (simp add: agreesOn_def items_def)
  qed
  then show ?case using dv by (simp add: items_def isPrimitiveType_def)
next
  case (5 h m fs newPath dv)
  note rt = 5(2) and dv = 5(3) and wf = 5(4) and nr = 5(6) and agree = 5(7)
  have wff: "wfFields fs" using wf by simp
  from nr have prim: "isPrimitiveType (Obj fs) \<noteq> Inl TypeError"
    and nrA: "\<not> raisesObjArray h m fs newPath dv 0" by simp_all
  have ag: "agreesOn (\<lambda>k. \<exists>j\<ge>0. prefix (arrayPath newPath' j) k) m'
      (serializeObjItems h fs newPath' (parseObjArray h m fs newPath dv 0) 0)"
  proof (rule agreesOn_mono)
    show "agreesOn (inFamily newPath') m'
        (serializeObjItems h fs newPath' (parseObjArray h m fs newPath dv 0) 0)"
      using agree by (simp add: items_def)
    show "inFamily newPath' q" if "\<exists>j\<ge>0. prefix (arrayPath newPath' j) q" for q
      using that prefix_arrayPath_inFamily by blast
  qed
  show ?case using 5(1)[OF rt dv wff nrA ag] prim by (simp add: items_def)
next
  case (6 h m t newPath dv)
  note rt = 6(2) and dv = 6(3) and wf = 6(4) and nr = 6(6) and agree = 6(7)
  have wff: "wfFields (entries (Arr t))" using wf by (simp add: wfKey_def)
  from nr have prim: "isPrimitiveType (Arr t) \<noteq> Inl TypeError"
    and nrA: "\<not> raisesObjArray h m (entries (Arr t)) newPath dv 0" by simp_all
  have ag: "agreesOn (\<lambda>k. \<exists>j\<ge>0. prefix (arrayPath newPath' j) k) m'
      (serializeObjItems h (entries (Arr t)) newPath' (parseObjArray h m (entries (Arr t)) newPath dv 0) 0)"
  proof (rule agreesOn_mono)
    show "agreesOn (inFamily newPath') m'
        (serializeObjItems h (entries (Arr t)) newPath' (parseObjArray h m (entries (Arr t)) newPath dv 0) 0)"
      using agree by (simp add: items_def)
    show "inFamily newPath' q" if "\<exists>j\<ge>0. prefix (arrayPath newPath' j) q" for q
      using that prefix_arrayPath_inFamily by blast
  qed
  show ?case using 6(1)[OF rt dv wff nrA ag] prim by (simp add: items_def)
next
  case (7 h m fs newPath dv)
  note rt = 7(2) and dv = 7(3) and wf = 7(4) and np = 7(5) and nr = 7(6) and agree = 7(7)
  have wff: "wfFields fs" using wf by simp
  from nr have prim: "isPrimitiveType (Obj fs) \<noteq> Inl TypeError"
    and nrF: "\<not> raisesSchemaRecursive h m fs newPath dv" by simp_all
  have ag: "agreesOn (inFields fs newPath') m'
      (serializeFields h fs newPath' (ObjV (parseSchemaRecursive h m fs newPath dv)))"
  proof (rule agreesOn_mono)
    show "agreesOn (inFamily newPath') m'
        (serializeFields h fs newPath' (ObjV (parseSchemaRecursive h m fs newPath dv)))"
      using agree by simp
    show "inFamily newPath' q" if "inFields fs newPath' q" for q
      using np that by (rule inFields_inFamily)
  qed
  show ?case using 7(1)[OF rt dv wff nrF ag] prim by simp
next
  case (8 h m fs newPath dv i)
  note rt = 8(3) and dv = 8(4) and wf = 8(5) and nr = 8(6) and agree = 8(7)
  let ?R = "\<lambda>k. \<exists>j\<ge>i'. prefix (arrayPath newPath'' j) k"
  have di: "getIndex dv i = Leaf Undefined" and di': "getIndex dv i' = Leaf Undefined"
    using dv by simp_all
  show ?case
  proof (cases "hasPaths m (arrayPath newPath i)")
    case False
    then have e: "parseObjArray h m fs newPath dv i = []"
      using dv by (subst parseObjArray.simps) simp
    have nhp: "\<not> hasPaths m' (arrayPath newPath'' i')"
    proof
      assume "hasPaths m' (arrayPath newPath'' i')"
      then obtain k where k: "k \<in> set (Map_keys m')" "prefix (arrayPath newPath'' i') k"
        by (auto simp: hasPaths_def list_ex_iff)
      then have "?R k" by blast
      with agree k(1) show False unfolding e agreesOn_def by auto
    qed
    have "parseObjArray h m' fs newPath'' dv i' = []"
      using nhp dv by (subst parseObjArray.simps) simp
    moreover have "\<not> raisesObjArray h m' fs newPath'' dv i'"
      using nhp dv by (subst raisesObjArray.simps) simp
    ultimately show ?thesis using e by simp
  next
    case True
    let ?E = "parseSchemaRecursive h m fs (arrayPath newPath i) (getIndex dv i)"
    let ?XS = "parseObjArray h m fs newPath dv (Suc i)"
    let ?SE = "serializeFields h fs (arrayPath newPath'' i') (ObjV ?E)"
    have c: "\<not> (\<not> truthy h (getIndex dv i) \<and> \<not> hasPaths m (arrayPath newPath i))"
      using True by simp
    have e: "parseObjArray h m fs newPath dv i = ObjV ?E # ?XS"
      using True by (subst parseObjArray.simps) simp
    from nr have nrE: "\<not> raisesSchemaRecursive h m fs (arrayPath newPath i) (getIndex dv i)"
      and nrXS: "\<not> raisesObjArray h m fs newPath dv (Suc i)"
      using True by (subst (asm) raisesObjArray.simps, simp)+
    have emits: "?SE \<noteq> [] \<longleftrightarrow> nonNullFields fs (ObjV ?E)"
      using serialize_nonNull(1)[OF rt di wf] .
    show ?thesis
    proof (cases "nonNullFields fs (ObjV ?E)")
      case False
      then have se: "?SE = []" using emits by simp
      have ag: "agreesOn ?R m' (serializeObjItems h fs newPath'' ?XS i')"
        using agree se unfolding e by simp
      have "parseObjArray h m' fs newPath'' dv i' = restrictItems fs ?XS
          \<and> \<not> raisesObjArray h m' fs newPath'' dv i'"
        using 8(2)[OF c rt dv wf nrXS ag] .
      then show ?thesis unfolding e using False by simp
    next
      case nn: True
      then have se: "?SE \<noteq> []" using emits by simp
      let ?S' = "serializeObjItems h fs newPath'' ?XS (Suc i')"
      have ag: "agreesOn ?R m' (?SE @ ?S')" using agree se unfolding e by simp
      have inE: "inElem newPath'' i' k" if "k \<in> fst ` set ?SE" for k
        using serialize_keys(1)[OF wf that] by (rule inFields_inElem)
      have inS': "\<exists>j. Suc i' \<le> j \<and> inElem newPath'' j k" if "k \<in> fst ` set ?S'" for k
        using serialize_keys(3)[OF wf that] .
      have hp: "hasPaths m' (arrayPath newPath'' i')"
      proof -
        from se obtain k where k: "k \<in> fst ` set ?SE" by (cases ?SE) auto
        then have pk: "prefix (arrayPath newPath'' i') k" using inE inElem_prefix by blast
        then have "?R k" by blast
        then have eq: "Map_get m' k = map_of (rev (?SE @ ?S')) k"
          using ag unfolding agreesOn_def by blast
        have "k \<in> fst ` set (?SE @ ?S')" using k by auto
        then have neq: "map_of (rev (?SE @ ?S')) k \<noteq> None"
          by (simp only: map_of_rev_None) simp
        have "Map_get m' k \<noteq> None" unfolding eq by (rule neq)
        then obtain s where "Map_get m' k = Some s" by (cases "Map_get m' k") simp_all
        then have "k \<in> set (Map_keys m')" by (rule Map_get_key)
        with pk show ?thesis by (auto simp: hasPaths_def list_ex_iff)
      qed
      have agE: "agreesOn (inFields fs (arrayPath newPath'' i')) m' ?SE"
      proof (rule agreesOn_left[OF ag])
        show "?R q" if "inFields fs (arrayPath newPath'' i') q" for q
          using inFields_inElem[OF that] inElem_prefix by blast
        show "\<not> inFields fs (arrayPath newPath'' i') k" if "k \<in> fst ` set ?S'" for k
        proof
          assume "inFields fs (arrayPath newPath'' i') k"
          then have "inElem newPath'' i' k" by (rule inFields_inElem)
          moreover from inS'[OF that] obtain j where "Suc i' \<le> j" "inElem newPath'' j k" by blast
          ultimately show False using elem_disjoint by fastforce
        qed
      qed
      have agS': "agreesOn (\<lambda>k. \<exists>j\<ge>Suc i'. prefix (arrayPath newPath'' j) k) m' ?S'"
      proof (rule agreesOn_right[OF ag])
        show "?R q" if "\<exists>j\<ge>Suc i'. prefix (arrayPath newPath'' j) q" for q
          using that Suc_leD by blast
        show "\<not> (\<exists>j\<ge>Suc i'. prefix (arrayPath newPath'' j) k)" if "k \<in> fst ` set ?SE" for k
        proof
          assume "\<exists>j\<ge>Suc i'. prefix (arrayPath newPath'' j) k"
          then obtain j where j: "Suc i' \<le> j" "prefix (arrayPath newPath'' j) k" by blast
          have "j \<le> i'" using elem_prefix_le[OF inE[OF that] j(2)] .
          with j(1) show False by simp
        qed
      qed
      have a: "parseSchemaRecursive h m' fs (arrayPath newPath'' i') (getIndex dv i)
            = restrictFields fs (ObjV ?E)
          \<and> \<not> raisesSchemaRecursive h m' fs (arrayPath newPath'' i') (getIndex dv i)"
        using 8(1)[OF c rt di wf nrE agE] .
      have b: "parseObjArray h m' fs newPath'' dv (Suc i') = restrictItems fs ?XS
          \<and> \<not> raisesObjArray h m' fs newPath'' dv (Suc i')"
        using 8(2)[OF c rt dv wf nrXS agS'] .
      have "parseObjArray h m' fs newPath'' dv i' =
          ObjV (parseSchemaRecursive h m' fs (arrayPath newPath'' i') (getIndex dv i'))
            # parseObjArray h m' fs newPath'' dv (Suc i')"
        using hp by (subst parseObjArray.simps) simp
      moreover have "raisesObjArray h m' fs newPath'' dv i' =
          (raisesSchemaRecursive h m' fs (arrayPath newPath'' i') (getIndex dv i')
           \<or> raisesObjArray h m' fs newPath'' dv (Suc i'))"
        using hp by (subst raisesObjArray.simps) simp
      ultimately show ?thesis unfolding e using a b nn di di' by simp
    qed
  qed
qed

subsection \<open>The round trip\<close>

text \<open>
  C1: for every schema (its keys non-empty, dot-free and distinct within an object, as
  the key grammar has them), every host that reads back the numbers and dates it prints,
  and every input on which \<^verbatim>\<open>parseURL\<close> (without defaults) returns a tree, serializing
  the tree and re-parsing the resulting flat map with the same schema returns the tree
  restricted to its non-null leaves: the \<^verbatim>\<open>null\<close> elements of arrays vanish, a \<^verbatim>\<open>null\<close> leaf
  of an object emits no key and parses back to \<^verbatim>\<open>null\<close>, and no other leaf changes value.
\<close>

theorem round_trip:
  assumes "hostRoundTrips h" and "wfFields schema"
    and "parseURL h data schema (Leaf Undefined) = Inr t"
  shows "parseURL h (DParams (serializeFields h schema [] t)) schema (Leaf Undefined)
       = Inr (ObjV (restrictFields schema t))"
proof -
  from assms(3) obtain sp where
    t: "t = ObjV (parseSchemaRecursive h (new_Map sp) schema [] (Leaf Undefined))"
    and nr: "\<not> raisesSchemaRecursive h (new_Map sp) schema [] (Leaf Undefined)"
    by (auto simp: parseURL_def split: sum.splits if_splits)
  let ?T = "parseSchemaRecursive h (new_Map sp) schema [] (Leaf Undefined)"
  let ?S = "serializeFields h schema [] (ObjV ?T)"
  have "parseSchemaRecursive h (new_Map ?S) schema [] (Leaf Undefined) = restrictFields schema (ObjV ?T)
      \<and> \<not> raisesSchemaRecursive h (new_Map ?S) schema [] (Leaf Undefined)"
  proof (rule round_trip_rec(1)[OF assms(1) refl assms(2) nr])
    show "agreesOn (inFields schema []) (new_Map ?S) ?S" by (rule agreesOn_new_Map)
  qed
  then show ?thesis by (simp add: parseURL_def getSearchParams_def t)
qed

text \<open>The sample host reads back what it prints.\<close>

lemma sampleNumber_showInt: "sampleNumber (showInt n) = Some n"
proof (cases "n < 0")
  case False
  then show ?thesis
    by (simp add: sampleNumber_def showInt_def matchesDigits_showNat readNat_showNat)
next
  case True
  have "\<not> isDigit CHR ''-''" by (simp add: isDigit_def)
  then have "\<not> matchesDigits (CHR ''-'' # showNat (nat (- n)))" by (simp add: matchesDigits_def)
  with True show ?thesis
    by (simp add: sampleNumber_def showInt_def matchesDigits_showNat readNat_showNat)
qed

lemma showInt_not_null: "showInt n \<noteq> [] \<and> showInt n \<noteq> ''null''"
proof -
  have a: "showNat k \<noteq> ''null''" for k
  proof
    assume "showNat k = ''null''"
    then have "isDigit CHR ''n''" using showNat_hd_digit[of k] by simp
    then show False by (simp add: isDigit_def)
  qed
  show ?thesis using a by (simp add: showInt_def showNat_nonempty)
qed

lemma sampleHost_round_trips: "hostRoundTrips sampleHost"
proof -
  have "isoShape d \<Longrightarrow> d \<noteq> [] \<and> d \<noteq> ''null''" for d
    by (auto simp: isoShape_def dest: list_all2_lengthD)
  then show ?thesis
    unfolding hostRoundTrips_def
    by (auto simp: sampleHost_def sampleNumber_showInt showInt_not_null sampleDate_def
        split: if_splits)
qed

text \<open>
  C1 at a schema with a number, an array of enum values, an array of objects and a nested
  object: the \<^verbatim>\<open>null\<close> element of \<^verbatim>\<open>sizes\<close> and the element of \<^verbatim>\<open>items\<close> whose only leaf is
  \<^verbatim>\<open>null\<close> vanish, the elements after them move down, the \<^verbatim>\<open>null\<close> leaf \<^verbatim>\<open>o.y\<close> emits no key
  and stays \<^verbatim>\<open>null\<close>.
\<close>

theorem round_trip_witness:
  "parseURL sampleHost
      (DParams [(''id'', ''42''), (''sizes.0'', ''invalid''), (''sizes.1'', ''small''),
                (''items.0.a'', []), (''items.1.a'', ''q''), (''o.x'', ''TRUE''), (''o.y'', ''nope'')])
      [(''id'', Prim PNumber), (''sizes'', Arr (Prim (PEnum ''small,medium,large''))),
       (''items'', Arr (Obj [(''a'', Prim PString)])),
       (''o'', Obj [(''x'', Prim PBoolean), (''y'', Prim PNumber)])] (Leaf Undefined)
     = Inr (ObjV [(''id'', Leaf (Num 42)), (''sizes'', ArrV [Leaf Null, Leaf (Str ''small'')]),
                  (''items'', ArrV [ObjV [(''a'', Leaf Null)], ObjV [(''a'', Leaf (Str ''q''))]]),
                  (''o'', ObjV [(''x'', Leaf (Bool True)), (''y'', Leaf Null)])])
   \<and> serializeFields sampleHost
        [(''id'', Prim PNumber), (''sizes'', Arr (Prim (PEnum ''small,medium,large''))),
         (''items'', Arr (Obj [(''a'', Prim PString)])),
         (''o'', Obj [(''x'', Prim PBoolean), (''y'', Prim PNumber)])] []
        (ObjV [(''id'', Leaf (Num 42)), (''sizes'', ArrV [Leaf Null, Leaf (Str ''small'')]),
               (''items'', ArrV [ObjV [(''a'', Leaf Null)], ObjV [(''a'', Leaf (Str ''q''))]]),
               (''o'', ObjV [(''x'', Leaf (Bool True)), (''y'', Leaf Null)])])
     = [(''id'', ''42''), (''sizes.0'', ''small''), (''items.0.a'', ''q''), (''o.x'', ''true'')]
   \<and> parseURL sampleHost
        (DParams [(''id'', ''42''), (''sizes.0'', ''small''), (''items.0.a'', ''q''), (''o.x'', ''true'')])
        [(''id'', Prim PNumber), (''sizes'', Arr (Prim (PEnum ''small,medium,large''))),
         (''items'', Arr (Obj [(''a'', Prim PString)])),
         (''o'', Obj [(''x'', Prim PBoolean), (''y'', Prim PNumber)])] (Leaf Undefined)
     = Inr (ObjV [(''id'', Leaf (Num 42)), (''sizes'', ArrV [Leaf (Str ''small'')]),
                  (''items'', ArrV [ObjV [(''a'', Leaf (Str ''q''))]]),
                  (''o'', ObjV [(''x'', Leaf (Bool True)), (''y'', Leaf Null)])])"
proof -
  let ?schema = "[(''id'', Prim PNumber), (''sizes'', Arr (Prim (PEnum ''small,medium,large''))),
       (''items'', Arr (Obj [(''a'', Prim PString)])),
       (''o'', Obj [(''x'', Prim PBoolean), (''y'', Prim PNumber)])]"
  let ?data = "DParams [(''id'', ''42''), (''sizes.0'', ''invalid''), (''sizes.1'', ''small''),
                (''items.0.a'', []), (''items.1.a'', ''q''), (''o.x'', ''TRUE''), (''o.y'', ''nope'')]"
  let ?t = "ObjV [(''id'', Leaf (Num 42)), (''sizes'', ArrV [Leaf Null, Leaf (Str ''small'')]),
                  (''items'', ArrV [ObjV [(''a'', Leaf Null)], ObjV [(''a'', Leaf (Str ''q''))]]),
                  (''o'', ObjV [(''x'', Leaf (Bool True)), (''y'', Leaf Null)])] :: (int, string) jsval"
  have wf: "wfFields ?schema" by code_simp
  have parse: "parseURL sampleHost ?data ?schema (Leaf Undefined) = Inr ?t" by code_simp
  have ser: "serializeFields sampleHost ?schema [] ?t
      = [(''id'', ''42''), (''sizes.0'', ''small''), (''items.0.a'', ''q''), (''o.x'', ''true'')]"
    by code_simp
  have res: "restrictFields ?schema ?t
      = [(''id'', Leaf (Num 42)), (''sizes'', ArrV [Leaf (Str ''small'')]),
         (''items'', ArrV [ObjV [(''a'', Leaf (Str ''q''))]]),
         (''o'', ObjV [(''x'', Leaf (Bool True)), (''y'', Leaf Null)])]"
    by code_simp
  show ?thesis
    using round_trip[OF sampleHost_round_trips wf parse] parse ser res
    by simp
qed

text \<open>
  The round trip is that of a parse with the schema alone. With a default tree, a leaf
  that parsed to \<^verbatim>\<open>null\<close> emits no key, and the second parse takes the default for it: under
  the schema \<^verbatim>\<open>{id: 'number'}\<close> with the default \<^verbatim>\<open>{id: 5}\<close>, \<^verbatim>\<open>id=abc\<close> parses to
  \<^verbatim>\<open>{id: null}\<close> and the serialization of that parses to \<^verbatim>\<open>{id: 5}\<close>.
\<close>

lemma default_refills_null_leaf:
  "parseURL sampleHost (DParams [(''id'', ''abc'')]) [(''id'', Prim PNumber)]
      (ObjV [(''id'', Leaf (Num 5))]) = Inr (ObjV [(''id'', Leaf Null)])
   \<and> serializeFields sampleHost [(''id'', Prim PNumber)] [] (ObjV [(''id'', Leaf Null)]) = []
   \<and> parseURL sampleHost (DParams []) [(''id'', Prim PNumber)]
        (ObjV [(''id'', Leaf (Num 5))]) = Inr (ObjV [(''id'', Leaf (Num 5))])"
  by code_simp

subsection \<open>Unknown keys and the path resolver\<close>

lemma splitOn_append:
  "splitOn c (a @ c # b) = splitOn c a @ splitOn c b"
proof (induction a)
  case Nil
  show ?case by simp
next
  case (Cons x a)
  obtain p ps where s: "splitOn c a = p # ps" using splitOn_not_Nil[of c a] by (cases "splitOn c a") auto
  show ?case using Cons s by simp
qed

lemma splitOn_single: "c \<notin> set key \<Longrightarrow> splitOn c key = [key]"
  by (induction key) auto

lemma segmentsOf_snoc: "segmentsOf (ps @ [key]) = joinPath (segmentsOf ps) key"
  by (simp add: segmentsOf_def)

lemma segmentsOf_Nil_iff: "list_all wfKey ps \<Longrightarrow> segmentsOf ps = [] \<longleftrightarrow> ps = []"
proof (induction ps rule: rev_induct)
  case Nil
  show ?case by (simp add: segmentsOf_def)
next
  case (snoc key ps)
  then show ?case by (simp add: segmentsOf_snoc joinPath_def wfKey_def)
qed

lemma splitOn_segmentsOf:
  "list_all wfKey ps \<Longrightarrow> ps \<noteq> [] \<Longrightarrow> splitOn CHR ''.'' (segmentsOf ps) = ps"
proof (induction ps rule: rev_induct)
  case Nil
  then show ?case by simp
next
  case (snoc key ps)
  from snoc.prems have wf: "list_all wfKey ps" "wfKey key" by simp_all
  then have single: "splitOn CHR ''.'' key = [key]" by (simp add: wfKey_def splitOn_single)
  show ?case
  proof (cases "ps = []")
    case True
    then show ?thesis using single by (simp add: segmentsOf_def joinPath_def)
  next
    case False
    then have ne: "segmentsOf ps \<noteq> []" using wf(1) by (simp add: segmentsOf_Nil_iff)
    have "splitOn CHR ''.'' (segmentsOf (ps @ [key])) =
        splitOn CHR ''.'' (segmentsOf ps @ CHR ''.'' # key)"
      using ne by (simp add: segmentsOf_snoc joinPath_def)
    also have "\<dots> = splitOn CHR ''.'' (segmentsOf ps) @ splitOn CHR ''.'' key"
      by (rule splitOn_append)
    also have "\<dots> = ps @ [key]" using snoc.IH[OF wf(1) False] single by simp
    finally show ?thesis .
  qed
qed

lemma wfFields_key: "wfFields fs \<Longrightarrow> (key, schemaType) \<in> set fs \<Longrightarrow> wfKey key"
  by (induction fs) auto

lemma wfFields_map_of: "wfFields fs \<Longrightarrow> (key, schemaType) \<in> set fs \<Longrightarrow> map_of fs key = Some schemaType"
  by (induction fs) (auto simp: rev_image_eqI)

lemma isIndexOf_split:
  assumes "isIndexOf newPath k"
  obtains r where "k = newPath @ CHR ''.'' # r" and "matchesDigits r"
  using assms
  by (auto simp: isIndexOf_def stripPrefix_def prefix_def split: if_splits)

lemma matchesDigits_wfKey: "matchesDigits r \<Longrightarrow> wfKey r"
  using isDigit_not_dot by (auto simp: matchesDigits_def wfKey_def list_all_iff)

text \<open>
  Under a schema with well-formed keys, a key that the parser consults resolves to a
  schema path, unless it begins with the text of an element of an array of objects.
\<close>

lemma consulted_resolves_or_array:
  "wfFields fs \<Longrightarrow> list_all wfKey ps \<Longrightarrow> currentPath = segmentsOf ps \<Longrightarrow>
   (\<And>key schemaType rest. (key, schemaType) \<in> set fs \<Longrightarrow>
      resolves root (ps @ key # rest) = resolves schemaType rest) \<Longrightarrow>
   consultedFields fs currentPath k \<Longrightarrow>
     arrayPrefixFields fs currentPath k \<or> resolves root (splitOn CHR ''.'' k)"
  "wfSchema schemaType \<Longrightarrow> list_all wfKey ps' \<Longrightarrow> ps' \<noteq> [] \<Longrightarrow> newPath = segmentsOf ps' \<Longrightarrow>
   (\<And>rest. resolves root (ps' @ rest) = resolves schemaType rest) \<Longrightarrow>
   consultedField schemaType newPath k \<Longrightarrow>
     arrayPrefixField schemaType newPath k \<or> resolves root (splitOn CHR ''.'' k)"
proof (induction fs currentPath k and schemaType newPath k arbitrary: ps and ps'
    rule: consultedFields_consultedField.induct)
  case (1 currentPath k)
  then show ?case by simp
next
  case (2 key schemaType rest currentPath k)
  from 2(3) have wfk: "wfKey key" and wfs: "wfSchema schemaType" and wfr: "wfFields rest"
    by simp_all
  from 2(7) have "consultedField schemaType (joinPath currentPath key) k
      \<or> consultedFields rest currentPath k" by simp
  then show ?case
  proof
    assume c: "consultedField schemaType (joinPath currentPath key) k"
    have a: "list_all wfKey (ps @ [key])" using 2(4) wfk by simp
    have b: "joinPath currentPath key = segmentsOf (ps @ [key])"
      using 2(5) by (simp add: segmentsOf_snoc)
    have w: "resolves root ((ps @ [key]) @ rest') = resolves schemaType rest'" for rest'
      using 2(6)[of key schemaType rest'] by simp
    have "arrayPrefixField schemaType (joinPath currentPath key) k \<or> resolves root (splitOn CHR ''.'' k)"
      using 2(1)[OF wfs a _ b w c] by simp
    then show ?thesis by auto
  next
    assume c: "consultedFields rest currentPath k"
    have w: "resolves root (ps @ key' # rest') = resolves schemaType' rest'"
      if "(key', schemaType') \<in> set rest" for key' schemaType' rest'
      using 2(6)[of key' schemaType' rest'] that by simp
    have "arrayPrefixFields rest currentPath k \<or> resolves root (splitOn CHR ''.'' k)"
      using 2(2)[OF wfr 2(4) 2(5) w c] .
    then show ?thesis by auto
  qed
next
  case (3 p newPath k)
  then have "k = segmentsOf ps'" by simp
  then have "splitOn CHR ''.'' k = ps'" using 3(2,3) by (simp add: splitOn_segmentsOf)
  moreover have "resolves root (ps' @ []) = resolves (Prim p) []" by (rule 3(5))
  ultimately show ?case by simp
next
  case (4 p newPath k)
  then have "isIndexOf newPath k" by simp
  then obtain r where k: "k = newPath @ CHR ''.'' # r" and r: "matchesDigits r"
    by (rule isIndexOf_split)
  have wfr: "wfKey r" using r by (rule matchesDigits_wfKey)
  have ne: "newPath \<noteq> []" using 4(2,3,4) by (simp add: segmentsOf_Nil_iff)
  have "k = segmentsOf (ps' @ [r])" using k ne 4(4) by (simp add: segmentsOf_snoc joinPath_def)
  moreover have "list_all wfKey (ps' @ [r])" using 4(2) wfr by simp
  ultimately have "splitOn CHR ''.'' k = ps' @ [r]" by (simp add: splitOn_segmentsOf)
  moreover have "resolves root (ps' @ [r]) = resolves (Arr (Prim p)) [r]" by (rule 4(5))
  ultimately show ?case using r by simp
next
  case (5 fs newPath k)
  then show ?case by simp
next
  case (6 t newPath k)
  then show ?case by simp
next
  case (7 fs newPath k)
  from 7(2) have wf: "wfFields fs" by simp
  have w: "resolves root (ps' @ key # rest) = resolves schemaType rest"
    if "(key, schemaType) \<in> set fs" for key schemaType rest
  proof -
    have "resolves root (ps' @ key # rest) = resolves (Obj fs) (key # rest)" by (rule 7(6))
    also have "\<dots> = resolves schemaType rest"
      using wfFields_map_of[OF wf that] by simp
    finally show ?thesis .
  qed
  from 7(7) have c: "consultedFields fs newPath k" by simp
  have "arrayPrefixFields fs newPath k \<or> resolves root (splitOn CHR ''.'' k)"
    using 7(1)[OF wf 7(3) 7(5) w c] .
  then show ?case by simp
qed

lemma consulted_resolves:
  assumes "wfFields schema" and "consultedFields schema [] k"
  shows "arrayPrefixFields schema [] k \<or> resolves (Obj schema) (splitOn CHR ''.'' k)"
proof (rule consulted_resolves_or_array(1)[OF assms(1), where ps = "[]"])
  show "list_all wfKey []" by simp
  show "[] = segmentsOf []" by (simp add: segmentsOf_def)
  show "resolves (Obj schema) ([] @ key # rest) = resolves schemaType rest"
    if "(key, schemaType) \<in> set schema" for key schemaType rest
    using wfFields_map_of[OF assms(1) that] by simp
  show "consultedFields schema [] k" by (rule assms(2))
qed

text \<open>
  Apart from the keys that begin with the text \<^verbatim>\<open>path.i\<close> of an element of an array of
  objects, \<^verbatim>\<open>parseURL\<close> ignores the keys that resolve to no schema path: for every schema
  whose keys are non-empty, dot-free and distinct within an object, \<^verbatim>\<open>parseURL\<close> on a
  multimap extended with such a key (at any position, with any value) returns, or raises,
  what it does on the multimap.
\<close>

lemma unknown_key_ignored:
  assumes "wfFields schema"
    and "\<not> resolves (Obj schema) (splitOn CHR ''.'' k)"
    and "\<not> arrayPrefixFields schema [] k"
  shows "parseURL h (DParams (paths1 @ (k, v) # paths2)) schema d
       = parseURL h (DParams (paths1 @ paths2)) schema d"
proof -
  have "\<not> consultedFields schema [] k"
    using consulted_resolves[OF assms(1)] assms(2,3) by blast
  then show ?thesis by (rule unconsulted_key_ignored)
qed

end
